theory Spec2Isabelle
  imports Main "HOL-Library.Sublist" "HOL-Library.AList" "HOL-Library.Multiset"
begin

section \<open>Python values used by vpc-setup.py\<close>

text \<open>
  The script is a straight-line Python program.  Every way it can stop early is a value
  of \<open>exn\<close>: \<open>exit(msg)\<close> is \<open>SystemExit msg\<close>, and the exceptions that the
  allocator part can raise are \<open>ValueError\<close> (which stands for \<open>int()\<close> failures and
  for the \<open>ipaddress\<close> errors \<open>AddressValueError\<close> and \<open>NetmaskValueError\<close>, both
  subclasses of it), \<open>IndexError\<close> and \<open>KeyError\<close>.
\<close>

datatype exn = SystemExit string | ValueError | IndexError | KeyError

subsection \<open>Decimal text\<close>

definition digit_char :: "nat \<Rightarrow> char" where
  "digit_char d = ''0123456789'' ! d"

fun str_nat :: "nat \<Rightarrow> string" where
  "str_nat n = (if n < 10 then [digit_char n] else str_nat (n div 10) @ [digit_char (n mod 10)])"

declare str_nat.simps [simp del]

text \<open>\<open>str(i)\<close> for a Python integer.\<close>

definition str :: "int \<Rightarrow> string" where
  "str i = (if i < 0 then CHR ''-'' # str_nat (nat (- i)) else str_nat (nat i))"

definition isdigit :: "char \<Rightarrow> bool" where
  "isdigit c = (c \<in> set ''0123456789'')"

definition isspace :: "char \<Rightarrow> bool" where
  "isspace c = (c \<in> set [CHR 0x09, CHR 0x0A, CHR 0x0B, CHR 0x0C, CHR 0x0D,
                          CHR 0x1C, CHR 0x1D, CHR 0x1E, CHR 0x1F, CHR 0x20])"

definition digit_val :: "char \<Rightarrow> nat" where
  "digit_val c = of_char c - 48"

definition int_of_digits :: "string \<Rightarrow> nat" where
  "int_of_digits s = foldl (\<lambda>a c. 10 * a + digit_val c) 0 s"

text \<open>\<open>s.split(c)\<close>: the pieces between the occurrences of \<open>c\<close>; never empty.\<close>

fun str_split :: "char \<Rightarrow> string \<Rightarrow> string list" where
  "str_split c [] = [[]]"
| "str_split c (x # xs) =
     (if x = c then [] # str_split c xs
      else (case str_split c xs of [] \<Rightarrow> [[x]] | w # ws \<Rightarrow> (x # w) # ws))"

text \<open>\<open>s.strip(chars)\<close>: drops the leading and the trailing characters that are in the set.\<close>

definition strip :: "(char \<Rightarrow> bool) \<Rightarrow> string \<Rightarrow> string" where
  "strip p s = rev (dropWhile p (rev (dropWhile p s)))"

text \<open>
  \<open>int(s)\<close> on a string: surrounding whitespace is dropped, one sign is allowed, and the
  rest is groups of decimal digits separated by single underscores.
\<close>

definition int_of_str :: "string \<Rightarrow> exn + int" where
  "int_of_str s =
     (let t = strip isspace s;
          neg = (t \<noteq> [] \<and> hd t = CHR ''-'');
          u = (if t \<noteq> [] \<and> (hd t = CHR ''-'' \<or> hd t = CHR ''+'') then tl t else t);
          groups = str_split CHR ''_'' u
      in if list_all (\<lambda>g. g \<noteq> [] \<and> list_all isdigit g) groups
         then Inr ((if neg then - 1 else 1) * int (int_of_digits (concat groups)))
         else Inl ValueError)"

text \<open>\<open>a in b\<close> on strings: \<open>a\<close> occurs in \<open>b\<close> as a contiguous piece.\<close>

fun str_in :: "string \<Rightarrow> string \<Rightarrow> bool" where
  "str_in a [] = (a = [])"
| "str_in a (y # ys) = (prefix a (y # ys) \<or> str_in a ys)"

text \<open>\<open>s[-3:]\<close>: the last three characters, or all of \<open>s\<close> when it is shorter.\<close>

definition last3 :: "string \<Rightarrow> string" where
  "last3 s = drop (length s - 3) s"

text \<open>\<open>xs[-2]\<close>: raises \<open>IndexError\<close> on a list of fewer than two elements.\<close>

definition index_neg2 :: "'a list \<Rightarrow> exn + 'a" where
  "index_neg2 xs = (if length xs < 2 then Inl IndexError else Inr (xs ! (length xs - 2)))"

section \<open>The standard library's IPv4Network\<close>

text \<open>
  An \<open>ipaddress.IPv4Network\<close> object is its network address, as the integer the library
  keeps, and its prefix length.  \<open>range_of\<close> is the set of addresses it covers.
\<close>

record network =
  network_address :: nat
  prefixlen :: nat

definition hostsize :: "network \<Rightarrow> nat" where
  "hostsize n = 2 ^ (32 - prefixlen n)"

definition range_of :: "network \<Rightarrow> nat set" where
  "range_of n = {network_address n ..< network_address n + hostsize n}"

text \<open>What the constructor guarantees: a prefix of at most 32 bits and no host bit set.\<close>

definition valid_network :: "network \<Rightarrow> bool" where
  "valid_network n = (prefixlen n \<le> 32 \<and> network_address n < 2 ^ 32 \<and>
                      network_address n mod hostsize n = 0)"

text \<open>One octet of a dotted quad: one to three decimal digits, no leading zero, at most 255.\<close>

definition parse_octet :: "string \<Rightarrow> exn + nat" where
  "parse_octet s =
     (if s = [] then Inl ValueError
      else if \<not> list_all isdigit s then Inl ValueError
      else if length s > 3 then Inl ValueError
      else if s \<noteq> ''0'' \<and> hd s = CHR ''0'' then Inl ValueError
      else if int_of_digits s > 255 then Inl ValueError
      else Inr (int_of_digits s))"

definition ip_int_from_string :: "string \<Rightarrow> exn + nat" where
  "ip_int_from_string s =
     (case map parse_octet (str_split CHR ''.'' s) of
        [Inr a, Inr b, Inr c, Inr d] \<Rightarrow> Inr (((a * 256 + b) * 256 + c) * 256 + d)
      | _ \<Rightarrow> Inl ValueError)"

text \<open>
  The part after the slash: a decimal prefix length of at most 32, or else a dotted quad
  read as a netmask (ones then zeros) or, failing that, as a host mask (zeros then ones).
\<close>

definition prefix_from_ip_int :: "nat \<Rightarrow> exn + nat" where
  "prefix_from_ip_int m =
     (case find (\<lambda>p. m = 2 ^ 32 - 2 ^ (32 - p)) [0 ..< 33] of
        Some p \<Rightarrow> Inr p
      | None \<Rightarrow> Inl ValueError)"

definition make_netmask :: "string \<Rightarrow> exn + nat" where
  "make_netmask arg =
     (if arg \<noteq> [] \<and> list_all isdigit arg \<and> int_of_digits arg \<le> 32 then Inr (int_of_digits arg)
      else (case ip_int_from_string arg of
              Inl e \<Rightarrow> Inl e
            | Inr m \<Rightarrow>
               (case prefix_from_ip_int m of
                  Inr p \<Rightarrow> Inr p
                | Inl _ \<Rightarrow> prefix_from_ip_int (2 ^ 32 - 1 - m))))"

text \<open>
  \<open>ipaddress.IPv4Network(s)\<close> with the default \<open>strict=True\<close>: at most one slash, a
  missing prefix means 32, and an address with host bits set is refused.
\<close>

definition IPv4Network :: "string \<Rightarrow> exn + network" where
  "IPv4Network s =
     (case str_split CHR ''/'' s of
        [a] \<Rightarrow>
          (case ip_int_from_string a of
             Inl e \<Rightarrow> Inl e
           | Inr ip \<Rightarrow> Inr \<lparr>network_address = ip, prefixlen = 32\<rparr>)
      | [a, m] \<Rightarrow>
          (case ip_int_from_string a of
             Inl e \<Rightarrow> Inl e
           | Inr ip \<Rightarrow>
              (case make_netmask m of
                 Inl e \<Rightarrow> Inl e
               | Inr p \<Rightarrow>
                  if ip mod 2 ^ (32 - p) \<noteq> 0 then Inl ValueError
                  else Inr \<lparr>network_address = ip, prefixlen = p\<rparr>))
      | _ \<Rightarrow> Inl ValueError)"

text \<open>\<open>net.compressed\<close>: the dotted quad, a slash and the prefix length.\<close>

definition dotted_quad :: "nat \<Rightarrow> string" where
  "dotted_quad ip =
     str_nat (ip div 2 ^ 24 mod 256) @ ''.'' @ str_nat (ip div 2 ^ 16 mod 256) @ ''.'' @
     str_nat (ip div 2 ^ 8 mod 256) @ ''.'' @ str_nat (ip mod 256)"

definition compressed :: "network \<Rightarrow> string" where
  "compressed n = dotted_quad (network_address n) @ ''/'' @ str_nat (prefixlen n)"

text \<open>
  \<open>list(net.subnets(new_prefix=k))\<close>.  A /32 network yields itself whatever \<open>k\<close> is;
  otherwise \<open>k\<close> must lie between the network's prefix length and 32, and the result is
  the \<open>2 ^ (k - prefixlen)\<close> networks of prefix length \<open>k\<close> in address order.
\<close>

definition subnets :: "network \<Rightarrow> int \<Rightarrow> exn + network list" where
  "subnets n new_prefix =
     (if prefixlen n = 32 then Inr [n]
      else if new_prefix < int (prefixlen n) then Inl ValueError
      else if new_prefix > 32 then Inl ValueError
      else Inr (map (\<lambda>k. \<lparr>network_address = network_address n + k * 2 ^ (32 - nat new_prefix),
                           prefixlen = nat new_prefix\<rparr>)
                    [0 ..< 2 ^ (nat new_prefix - prefixlen n)]))"

section \<open>cidr_slicing\<close>

text \<open>
  The \<open>while i <= prefixlen_diff\<close> loop of \<open>cidr_slicing\<close>, with the loop variables as
  arguments.  \<open>prefixlen0\<close> is the prefix length of the block the function was called
  with; the loop never changes it.
\<close>

function slicing_loop :: "network \<Rightarrow> int \<Rightarrow> int \<Rightarrow> int \<Rightarrow> string list \<Rightarrow> exn + string list" where
  "slicing_loop availablenetwork prefixlen0 prefixlen_diff i fulllist =
     (if i \<le> prefixlen_diff then
        (case subnets availablenetwork (prefixlen0 + i) of
           Inl e \<Rightarrow> Inl e
         | Inr sliced2_network \<Rightarrow>
            (case sliced2_network of
               [] \<Rightarrow> Inl IndexError
             | first # _ \<Rightarrow>
                 slicing_loop (last sliced2_network) prefixlen0 prefixlen_diff (i + 1)
                   (if i = prefixlen_diff
                    then fulllist @ [compressed first] @ [compressed (last sliced2_network)]
                    else fulllist @ [compressed first])))
      else Inr fulllist)"
  by pat_completeness auto
termination
  by (relation "measure (\<lambda>(a, p, d, i, l). nat (d + 1 - i))") auto

declare slicing_loop.simps [simp del]

definition cidr_slicing :: "string \<Rightarrow> int \<Rightarrow> exn + string list" where
  "cidr_slicing ip_block netmask =
     (case IPv4Network ip_block of
        Inl e \<Rightarrow> Inl e
      | Inr availablenetwork \<Rightarrow>
          slicing_loop availablenetwork (int (prefixlen availablenetwork))
            (netmask - int (prefixlen availablenetwork)) 1 [])"

section \<open>The ip_allocations table\<close>

text \<open>
  The DynamoDB table \<open>ip_allocations\<close> is a list of records: the primary key \<open>cidr\<close>
  and the other attributes of the item, all of them strings.  The order of the list is
  the order in which a scan returns the items.  \<open>calls\<close> is the history of the requests
  the script has sent to this table, oldest first.
\<close>

type_synonym item = "(string \<times> string) list"

datatype call =
    Scan string string string
  | UpdateItem string "(string \<times> string) list"
  | DeleteItem string

record dynamodb =
  ip_allocations :: "(string \<times> item) list"
  calls :: "call list"

text \<open>
  The filter \<open>#size = :size and availability = :availability and #region = :region\<close>;
  an item without one of the attributes does not match.
\<close>

definition matches :: "string \<Rightarrow> string \<Rightarrow> string \<Rightarrow> string \<times> item \<Rightarrow> bool" where
  "matches size' availability region r =
     (map_of (snd r) ''size'' = Some size' \<and>
      map_of (snd r) ''availability'' = Some availability \<and>
      map_of (snd r) ''region'' = Some region)"

definition scan :: "string \<Rightarrow> string \<Rightarrow> string \<Rightarrow> dynamodb \<Rightarrow> (string \<times> item) list \<times> dynamodb" where
  "scan size' availability region db =
     (filter (matches size' availability region) (ip_allocations db),
      db\<lparr>calls := calls db @ [Scan size' availability region]\<rparr>)"

text \<open>
  \<open>update_item\<close> with a \<open>SET\<close> expression: the item is created when the key is new, the
  named attributes are assigned and every other attribute of an existing item is kept.
\<close>

definition set_attrs :: "(string \<times> string) list \<Rightarrow> item \<Rightarrow> item" where
  "set_attrs sets it = fold (\<lambda>(a, v). AList.update a v) sets it"

definition get_item :: "string \<Rightarrow> dynamodb \<Rightarrow> item option" where
  "get_item key db = map_of (ip_allocations db) key"

definition update_item :: "string \<Rightarrow> (string \<times> string) list \<Rightarrow> dynamodb \<Rightarrow> dynamodb" where
  "update_item key sets db =
     db\<lparr>ip_allocations :=
          AList.update key
            (set_attrs sets (case get_item key db of None \<Rightarrow> [] | Some it \<Rightarrow> it))
            (ip_allocations db),
        calls := calls db @ [UpdateItem key sets]\<rparr>"

definition delete_item :: "string \<Rightarrow> dynamodb \<Rightarrow> dynamodb" where
  "delete_item key db =
     db\<lparr>ip_allocations := AList.delete key (ip_allocations db),
        calls := calls db @ [DeleteItem key]\<rparr>"

section \<open>The allocator part of the script\<close>

text \<open>
  The command-line arguments that the allocator reads, and \<open>account_type\<close>, which the
  script has looked up in the account table before.
\<close>

record args =
  account_id :: string
  base_region :: string
  ip_allocation :: string
  manual_cidr :: string
  account_type :: string

definition config_map :: "(string \<times> string) list" where
  "config_map = [(''production-pci'', ''prod-pci''), (''production'', ''prod''),
                 (''nonproduction-customer'', ''prod''), (''internal'', ''nonprod'')]"

text \<open>\<open>"{0}-{1}".format(config_map[account_type], base_region)\<close>\<close>

definition config_options_of :: "args \<Rightarrow> exn + string" where
  "config_options_of a =
     (case map_of config_map (account_type a) of
        None \<Rightarrow> Inl KeyError
      | Some c \<Rightarrow> Inr (c @ ''-'' @ base_region a))"

text \<open>
  \<open>ip_re.match(s)\<close> for \<open>ip_re = ^/[1-2][0-9]$\<close>.  In Python \<open>$\<close> also matches just
  before a newline that ends the string.
\<close>

fun ip_re_match :: "string \<Rightarrow> bool" where
  "ip_re_match [c0, c1, c2] =
     (c0 = CHR ''/'' \<and> (c1 = CHR ''1'' \<or> c1 = CHR ''2'') \<and> isdigit c2)"
| "ip_re_match [c0, c1, c2, c3] =
     (c0 = CHR ''/'' \<and> (c1 = CHR ''1'' \<or> c1 = CHR ''2'') \<and> isdigit c2 \<and> c3 = CHR 0x0A)"
| "ip_re_match _ = False"

text \<open>
  The \<open>while response['Count'] == 0\<close> loop: the response of the last scan and the
  current \<open>netmask\<close> are the loop variables.
\<close>

function widen :: "string \<Rightarrow> int \<Rightarrow> (string \<times> item) list \<Rightarrow> dynamodb
                   \<Rightarrow> (exn + (string \<times> item) list) \<times> dynamodb" where
  "widen region netmask response db =
     (if length response = 0 then
        (if netmask - 1 < 16 then
           (Inl (SystemExit ''Not able to find an appropriately sized CIDR in the region. Please consult Cloud Services DevSecOps''), db)
         else
           widen region (netmask - 1)
             (fst (scan (''/'' @ str (netmask - 1)) ''available'' region db))
             (snd (scan (''/'' @ str (netmask - 1)) ''available'' region db)))
      else (Inr response, db))"
  by pat_completeness auto
termination
  by (relation "measure (\<lambda>(r, n, resp, db). nat (n - 15))") auto

declare widen.simps [simp del]

text \<open>The three groups of writes of the slicing branch, in the order of the script.\<close>

definition add_slices :: "string \<Rightarrow> string list \<Rightarrow> dynamodb \<Rightarrow> dynamodb" where
  "add_slices region network_list db =
     fold (\<lambda>network. update_item network
             [(''size'', last3 network), (''availability'', ''available''), (''region'', region)])
          network_list db"

definition mark_in_use :: "args \<Rightarrow> string \<Rightarrow> string \<Rightarrow> string \<Rightarrow> dynamodb \<Rightarrow> dynamodb" where
  "mark_in_use a config_options key size' db =
     update_item key
       [(''size'', size'), (''availability'', ''in-use''), (''account_id'', account_id a),
        (''region'', base_region a), (''config_options'', config_options)] db"

definition slice_and_claim :: "args \<Rightarrow> string \<Rightarrow> string \<Rightarrow> int \<Rightarrow> dynamodb
                               \<Rightarrow> (exn + string) \<times> dynamodb" where
  "slice_and_claim a config_options ip_block netmask db =
     (case cidr_slicing ip_block netmask of
        Inl e \<Rightarrow> (Inl e, db)
      | Inr network_list \<Rightarrow>
         (case index_neg2 network_list of
            Inl e \<Rightarrow> (Inl e, db)
          | Inr assigned \<Rightarrow>
             (Inr assigned,
              delete_item ip_block
                (mark_in_use a config_options assigned (last3 assigned)
                   (add_slices (base_region a) network_list db)))))"

text \<open>The branch \<open>if manual_cidr == "no"\<close>.\<close>

definition allocate_automatic :: "args \<Rightarrow> dynamodb \<Rightarrow> (exn + string) \<times> dynamodb" where
  "allocate_automatic a db0 =
     (let (response0, db1) = scan (ip_allocation a) ''available'' (base_region a) db0 in
      case int_of_str (strip (\<lambda>c. c = CHR ''/'') (ip_allocation a)) of
        Inl e \<Rightarrow> (Inl e, db1)
      | Inr netmask \<Rightarrow>
         (case widen (base_region a) netmask response0 db1 of
            (Inl e, db2) \<Rightarrow> (Inl e, db2)
          | (Inr response, db2) \<Rightarrow>
             (case config_options_of a of
                Inl e \<Rightarrow> (Inl e, db2)
              | Inr config_options \<Rightarrow>
                 (case response of
                    [] \<Rightarrow> (Inl IndexError, db2)
                  | CIDR # _ \<Rightarrow>
                     (let ip_block = fst CIDR in
                      if str_in (ip_allocation a) ip_block then
                        (Inr ip_block,
                         update_item ip_block
                           [(''availability'', ''in-use''), (''account_id'', account_id a),
                            (''config_options'', config_options)] db2)
                      else slice_and_claim a config_options ip_block netmask db2)))))"

text \<open>The branch \<open>if manual_cidr != "no"\<close>.\<close>

definition allocate_manual :: "args \<Rightarrow> dynamodb \<Rightarrow> (exn + string) \<times> dynamodb" where
  "allocate_manual a db =
     (case config_options_of a of
        Inl e \<Rightarrow> (Inl e, db)
      | Inr config_options \<Rightarrow>
          (Inr (manual_cidr a),
           mark_in_use a config_options (manual_cidr a) (ip_allocation a) db))"

text \<open>
  The script from the check of \<open>ip_allocation\<close> to the last write to the table.  The
  result is the exception that stopped it or \<open>new_cidr\<close>, and the table as it is then.
  The checks of the other arguments, the account lookup and the look at the file system,
  which the script makes around the size check and none of which touches this table, are
  taken to have passed.
\<close>

definition main :: "args \<Rightarrow> dynamodb \<Rightarrow> (exn + string) \<times> dynamodb" where
  "main a db =
     (if \<not> ip_re_match (ip_allocation a) then
        (Inl (SystemExit ''Your IP Allocation looks invalid (should be /18 - /28).''), db)
      else if manual_cidr a = ''no'' then allocate_automatic a db
      else allocate_manual a db)"

section \<open>The split as the specification describes it\<close>

text \<open>
  The buddy split in the words of the specification: a block is cut into its two halves,
  the first half is kept as a free block and the second half is cut again, until the
  wanted prefix length is reached; the last block closes the list.  \<open>buddy_chain n k\<close>
  cuts \<open>k\<close> times.  The theorems below compare \<open>cidr_slicing\<close> with it.
\<close>

definition lower_half :: "network \<Rightarrow> network" where
  "lower_half n = \<lparr>network_address = network_address n, prefixlen = prefixlen n + 1\<rparr>"

definition upper_half :: "network \<Rightarrow> network" where
  "upper_half n = \<lparr>network_address = network_address n + 2 ^ (31 - prefixlen n),
                    prefixlen = prefixlen n + 1\<rparr>"

primrec buddy_chain :: "network \<Rightarrow> nat \<Rightarrow> network list" where
  "buddy_chain n 0 = [n]"
| "buddy_chain n (Suc k) = lower_half n # buddy_chain (upper_half n) k"

text \<open>Two networks overlap when their address ranges share an address.\<close>

definition overlaps :: "network \<Rightarrow> network \<Rightarrow> bool" where
  "overlaps n m = (network_address n < network_address m + hostsize m \<and>
                   network_address m < network_address n + hostsize n)"

section \<open>Reading the table and the history\<close>

text \<open>The value of one attribute of the record stored under a key, if there is one.\<close>

definition attr :: "string \<Rightarrow> string \<Rightarrow> dynamodb \<Rightarrow> string option" where
  "attr key name db = (case get_item key db of None \<Rightarrow> None | Some it \<Rightarrow> map_of it name)"

text \<open>
  The attributes the allocator reads or writes, and a record as the allocator sees it:
  the values of these attributes, in this order.
\<close>

definition allocator_attrs :: "string list" where
  "allocator_attrs = [''size'', ''availability'', ''account_id'', ''region'', ''config_options'']"

definition block_view :: "string \<Rightarrow> dynamodb \<Rightarrow> string option list" where
  "block_view key db = map (\<lambda>name. attr key name db) allocator_attrs"

text \<open>The number of records with a given size and availability.\<close>

definition count_records :: "string \<Rightarrow> string \<Rightarrow> dynamodb \<Rightarrow> nat" where
  "count_records size' availability db =
     length (filter (\<lambda>r. map_of (snd r) ''size'' = Some size' \<and>
                          map_of (snd r) ''availability'' = Some availability)
                    (ip_allocations db))"

text \<open>The requests that \<open>add_slices\<close> sends, one for each element of the list.\<close>

definition slice_writes :: "string \<Rightarrow> string list \<Rightarrow> call list" where
  "slice_writes region network_list =
     map (\<lambda>network. UpdateItem network
            [(''size'', last3 network), (''availability'', ''available''), (''region'', region)])
         network_list"

text \<open>A pool that has no match for any size: no record of the region is available.\<close>

definition pool_empty :: "string \<Rightarrow> dynamodb \<Rightarrow> bool" where
  "pool_empty region db =
     list_all (\<lambda>r. \<not> (map_of (snd r) ''availability'' = Some ''available'' \<and>
                        map_of (snd r) ''region'' = Some region))
              (ip_allocations db)"

text \<open>The scans for the sizes \<open>netmask - 1\<close>, \<open>netmask - 2\<close>, ... down to 16.\<close>

definition widen_scans :: "string \<Rightarrow> int \<Rightarrow> call list" where
  "widen_scans region netmask =
     map (\<lambda>m. Scan (''/'' @ str m) ''available'' region) (rev [16 .. netmask - 1])"

section \<open>Concrete requests and tables\<close>

text \<open>
  The scenario of the specification: the only record is the available block 10.0.0.0/20
  of us-west-2, and a /22 is requested.
\<close>

definition scenario_args :: args where
  "scenario_args = \<lparr>account_id = ''123456789012'', base_region = ''us-west-2'',
      ip_allocation = ''/22'', manual_cidr = ''no'', account_type = ''production''\<rparr>"

definition scenario_db :: dynamodb where
  "scenario_db = \<lparr>ip_allocations =
      [(''10.0.0.0/20'', [(''size'', ''/20''), (''availability'', ''available''),
                          (''region'', ''us-west-2'')])],
      calls = []\<rparr>"

text \<open>A /24 requested in eu-west-1, where the scenario's table has nothing.\<close>

definition eu_args :: args where
  "eu_args = \<lparr>account_id = ''123456789012'', base_region = ''eu-west-1'',
      ip_allocation = ''/24'', manual_cidr = ''no'', account_type = ''production''\<rparr>"

text \<open>The manual override of the specification: 10.1.0.0/24 is claimed by name.\<close>

definition manual_args :: args where
  "manual_args = \<lparr>account_id = ''123456789012'', base_region = ''us-west-2'',
      ip_allocation = ''/24'', manual_cidr = ''10.1.0.0/24'', account_type = ''production''\<rparr>"

text \<open>A manual override whose size argument differs from the prefix length of the block.\<close>

definition mismatch_args :: args where
  "mismatch_args = \<lparr>account_id = ''123456789012'', base_region = ''us-west-2'',
      ip_allocation = ''/22'', manual_cidr = ''10.1.0.0/24'', account_type = ''production''\<rparr>"

text \<open>A /29 requested from a table that holds one available /29 block.\<close>

definition args_29 :: args where
  "args_29 = \<lparr>account_id = ''123456789012'', base_region = ''us-west-2'',
      ip_allocation = ''/29'', manual_cidr = ''no'', account_type = ''production''\<rparr>"

definition db_29 :: dynamodb where
  "db_29 = \<lparr>ip_allocations =
      [(''10.0.0.0/29'', [(''size'', ''/29''), (''availability'', ''available''),
                          (''region'', ''us-west-2'')])],
      calls = []\<rparr>"

text \<open>A table whose only record is the available block 10.0.0.0/8, and a /10 request.\<close>

definition args_10 :: args where
  "args_10 = \<lparr>account_id = ''123456789012'', base_region = ''us-west-2'',
      ip_allocation = ''/10'', manual_cidr = ''no'', account_type = ''production''\<rparr>"

definition db_8 :: dynamodb where
  "db_8 = \<lparr>ip_allocations =
      [(''10.0.0.0/8'', [(''size'', ''/8''), (''availability'', ''available''),
                         (''region'', ''us-west-2'')])],
      calls = []\<rparr>"

section \<open>Pools of disjoint blocks and sequences of runs\<close>

text \<open>The keys of the table, in the order of the records.\<close>

definition keys :: "dynamodb \<Rightarrow> string list" where
  "keys db = map fst (ip_allocations db)"

text \<open>
  A key parses when the \<open>IPv4Network\<close> constructor accepts it.  Two keys overlap when
  both parse and the networks share an address; \<open>cidr_range\<close> is the set of addresses
  that a key covers.
\<close>

definition parses :: "string \<Rightarrow> bool" where
  "parses k = (case IPv4Network k of Inl _ \<Rightarrow> False | Inr _ \<Rightarrow> True)"

definition cidr_overlaps :: "string \<Rightarrow> string \<Rightarrow> bool" where
  "cidr_overlaps k k' =
     (case IPv4Network k of
        Inl _ \<Rightarrow> False
      | Inr n \<Rightarrow> (case IPv4Network k' of Inl _ \<Rightarrow> False | Inr m \<Rightarrow> overlaps n m))"

definition cidr_range :: "string \<Rightarrow> nat set" where
  "cidr_range k = (case IPv4Network k of Inl _ \<Rightarrow> {} | Inr n \<Rightarrow> range_of n)"

text \<open>No two different keys of a list overlap.\<close>

definition no_overlap :: "string list \<Rightarrow> bool" where
  "no_overlap ks = list_all (\<lambda>k. list_all (\<lambda>k'. k = k' \<or> \<not> cidr_overlaps k k') ks) ks"

text \<open>
  A disjoint pool: the keys are distinct (they are the primary key of the table), every
  key is a network, and no two records overlap.
\<close>

definition disjoint_pool :: "dynamodb \<Rightarrow> bool" where
  "disjoint_pool db = (distinct (keys db) \<and> list_all parses (keys db) \<and> no_overlap (keys db))"

text \<open>The records that a scan for available blocks can return.\<close>

definition available_records :: "dynamodb \<Rightarrow> (string \<times> item) set" where
  "available_records db =
     {r \<in> set (ip_allocations db). map_of (snd r) ''availability'' = Some ''available''}"

text \<open>
  \<open>runs db0 db claimed\<close>: the table \<open>db\<close> is reached from \<open>db0\<close> by automatic
  allocations that all succeeded, run one after another, and \<open>claimed\<close> lists the blocks
  they returned, oldest first.  DynamoDB does not fix the order in which a scan returns
  the items, so between two runs the list of records may be permuted.
\<close>

inductive runs :: "dynamodb \<Rightarrow> dynamodb \<Rightarrow> string list \<Rightarrow> bool" for db0 :: dynamodb where
  runs_start: "runs db0 db0 []"
| runs_alloc: "runs db0 db claimed \<Longrightarrow> manual_cidr a = ''no'' \<Longrightarrow>
               main a db = (Inr new_cidr, db') \<Longrightarrow> runs db0 db' (claimed @ [new_cidr])"
| runs_reorder: "runs db0 db claimed \<Longrightarrow> mset (ip_allocations db') = mset (ip_allocations db) \<Longrightarrow>
               runs db0 db' claimed"

text \<open>The scenario's table after one and after two requests for a /22.\<close>

definition scenario_db1 :: dynamodb where
  "scenario_db1 = snd (main scenario_args scenario_db)"

definition scenario_db2 :: dynamodb where
  "scenario_db2 = snd (main scenario_args scenario_db1)"

section \<open>Decimal text and dotted quads\<close>

lemma lt10_cases: "d < 10 \<Longrightarrow> d \<in> {0, 1, 2, 3, 4, 5, 6, 7, 8, 9::nat}"
  by auto

lemma isdigit_digit_char: "d < 10 \<Longrightarrow> isdigit (digit_char d)"
  by (drule lt10_cases) (auto simp: isdigit_def digit_char_def)

lemma digit_val_digit_char: "d < 10 \<Longrightarrow> digit_val (digit_char d) = d"
  by (drule lt10_cases) (auto simp: digit_val_def digit_char_def)

lemma digit_char_zero: "d < 10 \<Longrightarrow> digit_char d = CHR ''0'' \<longleftrightarrow> d = 0"
  by (drule lt10_cases) (auto simp: digit_char_def)

lemma isdigit_not_sep: "isdigit c \<Longrightarrow> c \<noteq> CHR ''/'' \<and> c \<noteq> CHR ''.''"
  by (auto simp: isdigit_def)

lemma int_of_digits_snoc: "int_of_digits (s @ [c]) = 10 * int_of_digits s + digit_val c"
  by (simp add: int_of_digits_def)

lemma int_of_digits_str_nat: "int_of_digits (str_nat n) = n"
proof (induction n rule: str_nat.induct)
  case (1 n)
  show ?case
  proof (cases "n < 10")
    case True
    then show ?thesis by (simp add: str_nat.simps[of n] int_of_digits_def digit_val_digit_char)
  next
    case False
    with 1 show ?thesis
      by (simp add: str_nat.simps[of n] int_of_digits_snoc digit_val_digit_char)
  qed
qed

lemma str_nat_digits: "list_all isdigit (str_nat n)"
proof (induction n rule: str_nat.induct)
  case (1 n)
  show ?case
  proof (cases "n < 10")
    case True
    then show ?thesis by (simp add: str_nat.simps[of n] isdigit_digit_char)
  next
    case False
    with 1 show ?thesis
      by (simp add: str_nat.simps[of n] isdigit_digit_char)
  qed
qed

lemma str_nat_nonempty: "str_nat n \<noteq> []"
  by (subst str_nat.simps) simp

lemma hd_str_nat: "hd (str_nat n) = CHR ''0'' \<longleftrightarrow> n = 0"
proof (induction n rule: str_nat.induct)
  case (1 n)
  show ?case
  proof (cases "n < 10")
    case True
    then show ?thesis by (simp add: str_nat.simps[of n] digit_char_zero)
  next
    case False
    with 1 show ?thesis
      by (simp add: str_nat.simps[of n] str_nat_nonempty)
  qed
qed

lemma length_str_nat_1: "n < 10 \<Longrightarrow> length (str_nat n) = 1"
  by (simp add: str_nat.simps[of n])

lemma length_str_nat_2: "10 \<le> n \<Longrightarrow> n < 100 \<Longrightarrow> length (str_nat n) = 2"
  by (simp add: str_nat.simps[of n] length_str_nat_1)

lemma length_str_nat_3: "100 \<le> n \<Longrightarrow> n < 1000 \<Longrightarrow> length (str_nat n) = 3"
  by (simp add: str_nat.simps[of n] length_str_nat_2)

lemma length_str_nat_le3: "n < 1000 \<Longrightarrow> length (str_nat n) \<le> 3"
  using length_str_nat_1[of n] length_str_nat_2[of n] length_str_nat_3[of n]
  by (cases "n < 10"; cases "n < 100") auto

lemma str_nat_0: "str_nat 0 = ''0''"
  by (simp add: str_nat.simps[of 0] digit_char_def)

lemma parse_octet_str_nat: "k < 256 \<Longrightarrow> parse_octet (str_nat k) = Inr k"
  using length_str_nat_le3[of k] hd_str_nat[of k]
  by (auto simp: parse_octet_def str_nat_nonempty str_nat_digits int_of_digits_str_nat str_nat_0)

lemma str_split_nonempty: "str_split c s \<noteq> []"
  by (induction s) (auto split: list.splits)

lemma str_split_none: "c \<notin> set s \<Longrightarrow> str_split c s = [s]"
  by (induction s) auto

lemma str_split_append: "c \<notin> set a \<Longrightarrow> str_split c (a @ c # b) = a # str_split c b"
  by (induction a) auto

lemma str_nat_no_sep: "CHR ''/'' \<notin> set (str_nat n)" "CHR ''.'' \<notin> set (str_nat n)"
  using str_nat_digits[of n] isdigit_not_sep by (auto simp: list_all_iff)

lemma octets_recompose:
  assumes "ip < 4294967296"
  shows "((ip div 16777216 mod 256 * 256 + ip div 65536 mod 256) * 256 + ip div 256 mod 256) * 256
           + ip mod 256 = (ip::nat)"
proof -
  define x1 where "x1 = ip div 256"
  define x2 where "x2 = x1 div 256"
  define x3 where "x3 = x2 div 256"
  have e2: "ip div 65536 = x2"
    unfolding x2_def x1_def by (simp add: div_mult2_eq[symmetric])
  have e3: "ip div 16777216 = x3"
    unfolding x3_def x2_def x1_def by (simp add: div_mult2_eq[symmetric])
  have "x3 < 256"
    using assms unfolding e3[symmetric] by (simp add: less_mult_imp_div_less)
  then have "x3 mod 256 * 256 + x2 mod 256 = x2"
    unfolding x3_def by simp
  moreover have "x2 * 256 + x1 mod 256 = x1"
    unfolding x2_def by simp
  moreover have "x1 * 256 + ip mod 256 = ip"
    unfolding x1_def by simp
  ultimately show ?thesis
    unfolding e2 e3 x1_def[symmetric] by simp
qed

lemma octet_lt: "(x::nat) mod 256 < 256"
  by simp

lemma ip_int_from_string_dotted_quad:
  assumes "ip < 2 ^ 32"
  shows "ip_int_from_string (dotted_quad ip) = Inr ip"
proof -
  have "ip_int_from_string (dotted_quad ip) =
     Inr (((ip div 16777216 mod 256 * 256 + ip div 65536 mod 256) * 256 + ip div 256 mod 256) * 256
           + ip mod 256)"
    by (simp add: ip_int_from_string_def dotted_quad_def str_split_append str_split_none
      str_nat_no_sep parse_octet_str_nat[OF octet_lt])
  then show ?thesis using octets_recompose[of ip] assms by simp
qed

lemma dotted_quad_no_slash: "CHR ''/'' \<notin> set (dotted_quad ip)"
  by (simp add: dotted_quad_def str_nat_no_sep)

lemma make_netmask_str_nat: "p \<le> 32 \<Longrightarrow> make_netmask (str_nat p) = Inr p"
  by (simp add: make_netmask_def str_nat_nonempty str_nat_digits int_of_digits_str_nat)

lemma IPv4Network_compressed:
  assumes "valid_network n"
  shows "IPv4Network (compressed n) = Inr n"
  using assms
  by (simp add: IPv4Network_def compressed_def str_split_append str_split_none
      dotted_quad_no_slash str_nat_no_sep ip_int_from_string_dotted_quad make_netmask_str_nat
      valid_network_def hostsize_def)

section \<open>Networks and the slicing loop\<close>

lemma parse_octet_le: "parse_octet s = Inr k \<Longrightarrow> k \<le> 255"
  by (auto simp: parse_octet_def split: if_splits)

lemma ip_int_from_string_lt:
  assumes "ip_int_from_string s = Inr ip"
  shows "ip < 2 ^ 32"
proof -
  from assms obtain a b c d where
    m: "map parse_octet (str_split CHR ''.'' s) = [Inr a, Inr b, Inr c, Inr d]"
    and ip: "ip = ((a * 256 + b) * 256 + c) * 256 + d"
    by (auto simp: ip_int_from_string_def split: list.splits sum.splits)
  from m obtain s1 s2 s3 s4 where "parse_octet s1 = Inr a" "parse_octet s2 = Inr b"
    "parse_octet s3 = Inr c" "parse_octet s4 = Inr d"
    by (auto simp: map_eq_Cons_conv)
  then have "a \<le> 255" "b \<le> 255" "c \<le> 255" "d \<le> 255"
    by (auto dest: parse_octet_le)
  then show ?thesis unfolding ip by simp
qed

lemma prefix_from_ip_int_le: "prefix_from_ip_int m = Inr p \<Longrightarrow> p \<le> 32"
  by (auto simp: prefix_from_ip_int_def find_Some_iff split: option.splits)

lemma make_netmask_le: "make_netmask s = Inr p \<Longrightarrow> p \<le> 32"
  by (auto simp: make_netmask_def split: if_splits sum.splits dest: prefix_from_ip_int_le)

lemma IPv4Network_valid:
  assumes "IPv4Network s = Inr n"
  shows "valid_network n"
  using assms
  by (auto simp: IPv4Network_def valid_network_def hostsize_def
      split: list.splits sum.splits if_splits
      dest: ip_int_from_string_lt make_netmask_le)

lemma subnets_halves:
  assumes "prefixlen n < 32"
  shows "subnets n (int (prefixlen n) + 1) = Inr [lower_half n, upper_half n]"
proof -
  have "nat (int (prefixlen n) + 1) = Suc (prefixlen n)" by simp
  moreover have "[0 ..< 2 ^ (Suc (prefixlen n) - prefixlen n)] = [0, Suc 0]"
    by (simp add: upt_rec)
  moreover have "32 - Suc (prefixlen n) = 31 - prefixlen n" by simp
  ultimately show ?thesis
    using assms by (simp add: subnets_def lower_half_def upper_half_def)
qed

lemma slicing_loop_done: "prefixlen_diff < i \<Longrightarrow> slicing_loop n p0 prefixlen_diff i acc = Inr acc"
  by (simp add: slicing_loop.simps)

lemma slicing_loop_chain:
  assumes "int (prefixlen n) = p0 + i - 1" "prefixlen n + Suc k \<le> 32" "d = i + int k"
  shows "slicing_loop n p0 d i acc = Inr (acc @ map compressed (buddy_chain n (Suc k)))"
  using assms
proof (induction k arbitrary: n i acc)
  case 0
  then have "subnets n (p0 + i) = Inr [lower_half n, upper_half n]"
    using subnets_halves[of n] by simp
  with 0 show ?case
    by (simp add: slicing_loop.simps[of n] slicing_loop_done)
next
  case (Suc k)
  then have s: "subnets n (p0 + i) = Inr [lower_half n, upper_half n]"
    using subnets_halves[of n] by simp
  have "slicing_loop (upper_half n) p0 d (i + 1) (acc @ [compressed (lower_half n)])
      = Inr ((acc @ [compressed (lower_half n)]) @ map compressed (buddy_chain (upper_half n) (Suc k)))"
    using Suc.prems by (intro Suc.IH) (auto simp: upper_half_def)
  with s Suc.prems show ?case
    by (simp add: slicing_loop.simps[of n])
qed

lemma cidr_slicing_chain:
  assumes "IPv4Network ip_block = Inr n" "int (prefixlen n) < netmask" "netmask \<le> 32"
  shows "cidr_slicing ip_block netmask
           = Inr (map compressed (buddy_chain n (nat (netmask - int (prefixlen n)))))"
proof -
  obtain k where k: "nat (netmask - int (prefixlen n)) = Suc k"
    using assms(2) by (cases "nat (netmask - int (prefixlen n))") auto
  then have "netmask - int (prefixlen n) = 1 + int k" by linarith
  moreover have "prefixlen n + Suc k \<le> 32" using k assms(3) by linarith
  ultimately have "slicing_loop n (int (prefixlen n)) (netmask - int (prefixlen n)) 1 []
      = Inr ([] @ map compressed (buddy_chain n (Suc k)))"
    by (intro slicing_loop_chain) auto
  then show ?thesis
    using assms(1) unfolding k by (simp add: cidr_slicing_def)
qed

lemma cidr_slicing_empty:
  assumes "IPv4Network ip_block = Inr n" "netmask \<le> int (prefixlen n)"
  shows "cidr_slicing ip_block netmask = Inr []"
  using assms by (simp add: cidr_slicing_def slicing_loop_done)

section \<open>Evaluating text on numerals\<close>

lemma str_nat_numeral:
  "str_nat (numeral k) = (if (numeral k::nat) < 10 then [digit_char (numeral k)]
     else str_nat (numeral k div 10) @ [digit_char (numeral k mod 10)])"
  by (rule str_nat.simps)

lemma str_nat_1: "str_nat 1 = ''1''" "str_nat (Suc 0) = ''1''"
  by (simp_all add: str_nat.simps[of 1] str_nat.simps[of "Suc 0"] digit_char_def)

lemma buddy_chain_numeral:
  "buddy_chain n (numeral k) = lower_half n # buddy_chain (upper_half n) (pred_numeral k)"
  by (simp add: numeral_eq_Suc)

lemmas str_eval = str_nat_numeral str_nat_0 str_nat_1 digit_char_def compressed_def dotted_quad_def

lemma net_10_0_0_0_24:
  "IPv4Network ''10.0.0.0/24'' = Inr \<lparr>network_address = 167772160, prefixlen = 24\<rparr>"
proof -
  have "valid_network \<lparr>network_address = 167772160, prefixlen = 24\<rparr>"
    by (simp add: valid_network_def hostsize_def)
  from IPv4Network_compressed[OF this] show ?thesis by (simp add: str_eval)
qed

section \<open>Reading and writing records\<close>

lemma get_item_update_item:
  "get_item k (update_item k' sets db) =
     (if k = k' then Some (set_attrs sets (case get_item k' db of None \<Rightarrow> [] | Some it \<Rightarrow> it))
      else get_item k db)"
  by (simp add: get_item_def update_item_def update_conv')

lemma get_item_delete_item:
  "get_item k (delete_item k' db) = (if k = k' then None else get_item k db)"
  by (simp add: get_item_def delete_item_def delete_conv')

lemma map_of_set_attrs_Cons:
  "map_of (set_attrs ((n, v) # sets) it) = map_of (set_attrs sets (AList.update n v it))"
  by (simp add: set_attrs_def)

lemma map_of_set_attrs:
  "map_of (set_attrs sets it) name =
     (case map_of (rev sets) name of None \<Rightarrow> map_of it name | Some v \<Rightarrow> Some v)"
proof (induction sets arbitrary: it)
  case Nil
  then show ?case by (simp add: set_attrs_def)
next
  case (Cons p sets)
  obtain n v where p: "p = (n, v)" by (cases p)
  show ?case
    unfolding p map_of_set_attrs_Cons Cons.IH
    by (auto simp: update_conv' map_add_def split: option.splits)
qed

lemma attr_update_item:
  "attr k name (update_item k' sets db) =
     (if k = k' then (case map_of (rev sets) name of None \<Rightarrow> attr k name db | Some v \<Rightarrow> Some v)
      else attr k name db)"
  by (auto simp: attr_def get_item_update_item map_of_set_attrs split: option.splits)

lemma attr_delete_item:
  "attr k name (delete_item k' db) = (if k = k' then None else attr k name db)"
  by (simp add: attr_def get_item_delete_item)

lemma calls_update_item: "calls (update_item k sets db) = calls db @ [UpdateItem k sets]"
  by (simp add: update_item_def)

lemma calls_delete_item: "calls (delete_item k db) = calls db @ [DeleteItem k]"
  by (simp add: delete_item_def)

lemma attr_mark_in_use:
  "attr k name (mark_in_use a co k' sz db) =
     (if k = k' then
        (if name = ''size'' then Some sz
         else if name = ''availability'' then Some ''in-use''
         else if name = ''account_id'' then Some (account_id a)
         else if name = ''region'' then Some (base_region a)
         else if name = ''config_options'' then Some co
         else attr k name db)
      else attr k name db)"
  by (simp add: mark_in_use_def attr_update_item)

lemma add_slices_snoc:
  "add_slices r (ns @ [n]) db =
     update_item n [(''size'', last3 n), (''availability'', ''available''), (''region'', r)]
       (add_slices r ns db)"
  by (simp add: add_slices_def)

lemma add_slices_Nil: "add_slices r [] db = db"
  by (simp add: add_slices_def)

lemma calls_add_slices: "calls (add_slices r ns db) = calls db @ slice_writes r ns"
  by (induction ns rule: rev_induct)
    (simp_all add: add_slices_Nil add_slices_snoc calls_update_item slice_writes_def)

lemma attr_add_slices_other:
  "k \<notin> set ns \<Longrightarrow> attr k name (add_slices r ns db) = attr k name db"
  by (induction ns rule: rev_induct)
    (simp_all add: add_slices_Nil add_slices_snoc attr_update_item)

lemma attr_add_slices:
  assumes "k \<in> set ns"
  shows "attr k ''availability'' (add_slices r ns db) = Some ''available''"
    and "attr k ''size'' (add_slices r ns db) = Some (last3 k)"
    and "attr k ''region'' (add_slices r ns db) = Some r"
  using assms
  by (induction ns rule: rev_induct)
    (auto simp: add_slices_Nil add_slices_snoc attr_update_item)

lemma index_neg2_mem: "index_neg2 xs = Inr x \<Longrightarrow> x \<in> set xs"
  by (auto simp: index_neg2_def split: if_splits)

lemma filter_matches_empty:
  "pool_empty region db \<Longrightarrow> filter (matches sz ''available'' region) (ip_allocations db) = []"
  by (auto simp: pool_empty_def matches_def list_all_iff filter_empty_conv)

lemma pool_empty_calls [simp]: "pool_empty region (db\<lparr>calls := c\<rparr>) = pool_empty region db"
  by (simp add: pool_empty_def)

lemma scan_pool_empty:
  "pool_empty region db \<Longrightarrow>
     scan sz ''available'' region db = ([], db\<lparr>calls := calls db @ [Scan sz ''available'' region]\<rparr>)"
  by (simp add: scan_def filter_matches_empty)

lemma upto_rev_step: "16 \<le> n - 1 \<Longrightarrow> rev [16 .. n - 1] = (n - 1) # rev [16 .. n - 1 - 1]"
  by (simp add: upto_rec2)

lemma widen_pool_empty:
  assumes "pool_empty region db"
  shows "widen region netmask [] db =
           (Inl (SystemExit ''Not able to find an appropriately sized CIDR in the region. Please consult Cloud Services DevSecOps''),
            db\<lparr>calls := calls db @ widen_scans region netmask\<rparr>)"
  using assms
proof (induction "nat (netmask - 16)" arbitrary: netmask db)
  case 0
  then have "netmask - 1 < 16" by simp
  then show ?case by (simp add: widen.simps[of _ netmask] widen_scans_def)
next
  case (Suc k)
  then have ge: "16 \<le> netmask - 1" by linarith
  from Suc.hyps(2) have k: "k = nat (netmask - 1 - 16)" by linarith
  have pe: "pool_empty region (db\<lparr>calls := calls db @ [Scan (''/'' @ str (netmask - 1)) ''available'' region]\<rparr>)"
    using Suc.prems by simp
  show ?case
    using ge Suc.prems Suc.hyps(1)[OF k pe]
    by (simp add: widen.simps[of _ netmask] scan_pool_empty widen_scans_def upto_rev_step)
qed

section \<open>The size argument and the widening loop\<close>

lemma isdigit_facts:
  assumes "isdigit c"
  shows "\<not> isspace c" "c \<noteq> CHR ''/''" "c \<noteq> CHR ''-''" "c \<noteq> CHR ''+''" "c \<noteq> CHR ''_''"
    "digit_val c \<le> 9"
  using assms by (auto simp: isdigit_def isspace_def digit_val_def)

lemma int_of_str_two_digits:
  assumes "isdigit c1" "isdigit c2"
  shows "int_of_str [c1, c2] = Inr (int (10 * digit_val c1 + digit_val c2))"
  using isdigit_facts[OF assms(1)] isdigit_facts[OF assms(2)] assms
  by (simp add: int_of_str_def strip_def int_of_digits_def)

lemma int_of_str_two_digits_nl:
  assumes "isdigit c1" "isdigit c2"
  shows "int_of_str [c1, c2, CHR 0x0A] = Inr (int (10 * digit_val c1 + digit_val c2))"
  using isdigit_facts[OF assms(1)] isdigit_facts[OF assms(2)] assms
  by (simp add: int_of_str_def strip_def int_of_digits_def isspace_def)

lemma ip_re_match_cases:
  assumes "ip_re_match s"
  obtains c1 c2 where "c1 = CHR ''1'' \<or> c1 = CHR ''2''" "isdigit c2"
    "s = [CHR ''/'', c1, c2] \<or> s = [CHR ''/'', c1, c2, CHR 0x0A]"
  using assms by (cases s rule: ip_re_match.cases) auto

lemma netmask_of_ip_allocation:
  assumes "ip_re_match s"
  shows "\<exists>netmask. int_of_str (strip (\<lambda>c. c = CHR ''/'') s) = Inr netmask \<and>
           10 \<le> netmask \<and> netmask \<le> 29"
proof -
  from assms obtain c1 c2 where c: "c1 = CHR ''1'' \<or> c1 = CHR ''2''" "isdigit c2"
    "s = [CHR ''/'', c1, c2] \<or> s = [CHR ''/'', c1, c2, CHR 0x0A]"
    by (rule ip_re_match_cases)
  from c(1) have d1: "isdigit c1" "digit_val c1 = 1 \<or> digit_val c1 = 2"
    by (auto simp: isdigit_def digit_val_def)
  have s: "strip (\<lambda>c. c = CHR ''/'') s = [c1, c2] \<or> strip (\<lambda>c. c = CHR ''/'') s = [c1, c2, CHR 0x0A]"
    using c(3) isdigit_facts(2)[OF d1(1)] isdigit_facts(2)[OF c(2)]
    by (auto simp: strip_def)
  have "int_of_str (strip (\<lambda>c. c = CHR ''/'') s) = Inr (int (10 * digit_val c1 + digit_val c2))"
    using s int_of_str_two_digits[OF d1(1) c(2)] int_of_str_two_digits_nl[OF d1(1) c(2)]
    by auto
  moreover have "10 \<le> int (10 * digit_val c1 + digit_val c2)"
    "int (10 * digit_val c1 + digit_val c2) \<le> 29"
    using d1(2) isdigit_facts(6)[OF c(2)] by auto
  ultimately show ?thesis by blast
qed

section \<open>The scenario, evaluated\<close>

lemma int_of_str_22: "int_of_str (strip (\<lambda>c. c = CHR ''/'') ''/22'') = Inr 22"
  by (simp add: int_of_str_def strip_def isspace_def isdigit_def int_of_digits_def digit_val_def)

lemma net_10_0_0_0_20:
  "IPv4Network ''10.0.0.0/20'' = Inr \<lparr>network_address = 167772160, prefixlen = 20\<rparr>"
proof -
  have "valid_network \<lparr>network_address = 167772160, prefixlen = 20\<rparr>"
    by (simp add: valid_network_def hostsize_def)
  from IPv4Network_compressed[OF this] show ?thesis by (simp add: str_eval)
qed

lemma slicing_10_0_0_0_20:
  "cidr_slicing ''10.0.0.0/20'' 22 = Inr [''10.0.0.0/21'', ''10.0.8.0/22'', ''10.0.12.0/22'']"
  using cidr_slicing_chain[OF net_10_0_0_0_20, of 22]
  by (simp add: buddy_chain_numeral lower_half_def upper_half_def str_eval)

lemmas table_eval = scan_def matches_def update_item_def get_item_def set_attrs_def
  delete_item_def add_slices_def mark_in_use_def index_neg2_def last3_def config_options_of_def
  config_map_def

lemma scenario_eval:
  "main scenario_args scenario_db =
     (Inr ''10.0.8.0/22'',
      \<lparr>ip_allocations =
         [(''10.0.0.0/21'', [(''size'', ''/21''), (''availability'', ''available''),
                             (''region'', ''us-west-2'')]),
          (''10.0.8.0/22'', [(''size'', ''/22''), (''availability'', ''in-use''),
                             (''region'', ''us-west-2''), (''account_id'', ''123456789012''),
                             (''config_options'', ''prod-us-west-2'')]),
          (''10.0.12.0/22'', [(''size'', ''/22''), (''availability'', ''available''),
                              (''region'', ''us-west-2'')])],
       calls =
         [Scan ''/22'' ''available'' ''us-west-2'',
          Scan ''/21'' ''available'' ''us-west-2'',
          Scan ''/20'' ''available'' ''us-west-2'',
          UpdateItem ''10.0.0.0/21'' [(''size'', ''/21''), (''availability'', ''available''),
                                      (''region'', ''us-west-2'')],
          UpdateItem ''10.0.8.0/22'' [(''size'', ''/22''), (''availability'', ''available''),
                                      (''region'', ''us-west-2'')],
          UpdateItem ''10.0.12.0/22'' [(''size'', ''/22''), (''availability'', ''available''),
                                       (''region'', ''us-west-2'')],
          UpdateItem ''10.0.8.0/22'' [(''size'', ''/22''), (''availability'', ''in-use''),
                                      (''account_id'', ''123456789012''),
                                      (''region'', ''us-west-2''),
                                      (''config_options'', ''prod-us-west-2'')],
          DeleteItem ''10.0.0.0/20'']\<rparr>)"
  by (simp add: scenario_args_def scenario_db_def main_def allocate_automatic_def isdigit_def
      int_of_str_22 widen.simps str_eval str_def slice_and_claim_def slicing_10_0_0_0_20
      table_eval)

lemma net_10_1_0_0_24:
  "IPv4Network ''10.1.0.0/24'' = Inr \<lparr>network_address = 167837696, prefixlen = 24\<rparr>"
proof -
  have "valid_network \<lparr>network_address = 167837696, prefixlen = 24\<rparr>"
    by (simp add: valid_network_def hostsize_def)
  from IPv4Network_compressed[OF this] show ?thesis by (simp add: str_eval)
qed

lemma mismatch_eval:
  "attr ''10.1.0.0/24'' ''size'' (snd (main mismatch_args scenario_db)) = Some ''/22''"
  by (simp add: mismatch_args_def main_def allocate_manual_def isdigit_def
      config_options_of_def config_map_def attr_mark_in_use)

section \<open>The halves of a network and the buddy chain\<close>

lemma hostsize_pos: "0 < hostsize n"
  by (simp add: hostsize_def)

lemma overlaps_iff: "overlaps n m \<longleftrightarrow> range_of n \<inter> range_of m \<noteq> {}"
proof
  assume "overlaps n m"
  then have "max (network_address n) (network_address m) \<in> range_of n \<inter> range_of m"
    using hostsize_pos[of n] hostsize_pos[of m] by (auto simp: overlaps_def range_of_def)
  then show "range_of n \<inter> range_of m \<noteq> {}" by blast
next
  assume "range_of n \<inter> range_of m \<noteq> {}"
  then show "overlaps n m" by (auto simp: overlaps_def range_of_def)
qed

lemma overlaps_refl: "overlaps n n"
  using hostsize_pos[of n] by (simp add: overlaps_def)

lemma hostsize_halves:
  assumes "prefixlen n < 32"
  shows "hostsize (lower_half n) = 2 ^ (31 - prefixlen n)"
    and "hostsize (upper_half n) = 2 ^ (31 - prefixlen n)"
    and "hostsize n = 2 * 2 ^ (31 - prefixlen n)"
proof -
  have "32 - prefixlen n = Suc (31 - prefixlen n)" using assms by simp
  then show "hostsize n = 2 * 2 ^ (31 - prefixlen n)" by (simp add: hostsize_def)
qed (simp_all add: hostsize_def lower_half_def upper_half_def)

lemma range_halves:
  assumes "prefixlen n < 32"
  shows "range_of (lower_half n) \<union> range_of (upper_half n) = range_of n"
    and "range_of (lower_half n) \<inter> range_of (upper_half n) = {}"
  unfolding range_of_def hostsize_halves[OF assms]
  by (auto simp: lower_half_def upper_half_def)

lemma prefixlen_halves:
  "prefixlen (lower_half n) = Suc (prefixlen n)" "prefixlen (upper_half n) = Suc (prefixlen n)"
  by (simp_all add: lower_half_def upper_half_def)

lemma address_halves:
  "network_address (lower_half n) = network_address n"
  "network_address (upper_half n) = network_address n + 2 ^ (31 - prefixlen n)"
  by (simp_all add: lower_half_def upper_half_def)

lemma valid_lower_half:
  assumes "valid_network n" "prefixlen n < 32"
  shows "valid_network (lower_half n)"
proof -
  have "hostsize (lower_half n) dvd hostsize n"
    unfolding hostsize_halves[OF assms(2)] by simp
  moreover have "hostsize n dvd network_address n"
    using assms(1) by (simp add: valid_network_def mod_eq_0_iff_dvd)
  ultimately have "hostsize (lower_half n) dvd network_address n"
    by (rule dvd_trans)
  then show ?thesis
    using assms by (simp add: valid_network_def mod_eq_0_iff_dvd prefixlen_halves address_halves)
qed

lemma valid_upper_half:
  assumes "valid_network n" "prefixlen n < 32"
  shows "valid_network (upper_half n)"
proof -
  define h :: nat where "h = 2 ^ (31 - prefixlen n)"
  define top :: nat where "top = 2 ^ 32"
  have hs: "hostsize n = 2 * h" unfolding h_def by (rule hostsize_halves[OF assms(2)])
  have hu: "hostsize (upper_half n) = h" unfolding h_def by (rule hostsize_halves[OF assms(2)])
  have hpos: "0 < h" unfolding h_def by simp
  have d: "hostsize n dvd network_address n"
    using assms(1) by (simp add: valid_network_def mod_eq_0_iff_dvd)
  have "h dvd hostsize n" unfolding hs by simp
  then have d1: "h dvd network_address n" using d by (rule dvd_trans)
  have d2: "hostsize n dvd top"
    unfolding hostsize_def top_def by (rule le_imp_power_dvd) simp
  have lt: "network_address n < top" using assms(1) by (simp add: valid_network_def top_def)
  obtain q where q: "network_address n = hostsize n * q" using d by (auto simp: dvd_def)
  obtain r where r: "top = hostsize n * r" using d2 by (auto simp: dvd_def)
  have "q < r" using lt hostsize_pos[of n] unfolding q r by simp
  then have "Suc q \<le> r" by simp
  then have "hostsize n * Suc q \<le> hostsize n * r" by (rule mult_le_mono2)
  then have "network_address n + hostsize n \<le> top" unfolding q r by simp
  then have "network_address n + h < top" using hpos unfolding hs by simp
  moreover have "h dvd network_address n + h" using d1 by simp
  ultimately show ?thesis
    using assms(2) unfolding valid_network_def hu prefixlen_halves address_halves
      h_def[symmetric] top_def[symmetric]
    by (simp add: mod_eq_0_iff_dvd)
qed

lemma buddy_chain_nonempty: "buddy_chain n k \<noteq> []"
  by (cases k) simp_all

lemma length_buddy_chain: "length (buddy_chain n k) = Suc k"
  by (induction k arbitrary: n) simp_all

lemma last_buddy_chain: "prefixlen (last (buddy_chain n k)) = prefixlen n + k"
  by (induction k arbitrary: n) (simp_all add: buddy_chain_nonempty prefixlen_halves)

lemma valid_buddy_chain:
  "valid_network n \<Longrightarrow> prefixlen n + k \<le> 32 \<Longrightarrow> list_all valid_network (buddy_chain n k)"
proof (induction k arbitrary: n)
  case 0
  then show ?case by simp
next
  case (Suc k)
  then have "valid_network (upper_half n)" "prefixlen (upper_half n) + k \<le> 32"
    "valid_network (lower_half n)"
    by (simp_all add: valid_upper_half valid_lower_half prefixlen_halves)
  then show ?case using Suc.IH[of "upper_half n"] by simp
qed

lemma prefixlen_buddy_chain:
  "m \<in> set (buddy_chain n k) \<Longrightarrow> prefixlen n \<le> prefixlen m \<and> prefixlen m \<le> prefixlen n + k"
proof (induction k arbitrary: n)
  case 0
  then show ?case by simp
next
  case (Suc k)
  then consider "m = lower_half n" | "m \<in> set (buddy_chain (upper_half n) k)" by auto
  then show ?case
  proof cases
    case 1
    then show ?thesis by (simp add: prefixlen_halves)
  next
    case 2
    from Suc.IH[OF this] show ?thesis by (simp add: prefixlen_halves)
  qed
qed

lemma prefixlen_buddy_chain_gt:
  assumes "m \<in> set (buddy_chain n (Suc k))"
  shows "prefixlen n < prefixlen m"
proof -
  from assms consider "m = lower_half n" | "m \<in> set (buddy_chain (upper_half n) k)" by auto
  then show ?thesis
  proof cases
    case 1
    then show ?thesis by (simp add: prefixlen_halves)
  next
    case 2
    from prefixlen_buddy_chain[OF this] show ?thesis by (simp add: prefixlen_halves)
  qed
qed

lemma union_buddy_chain:
  "prefixlen n + k \<le> 32 \<Longrightarrow> \<Union> (range_of ` set (buddy_chain n k)) = range_of n"
proof (induction k arbitrary: n)
  case 0
  then show ?case by simp
next
  case (Suc k)
  then have "\<Union> (range_of ` set (buddy_chain (upper_half n) k)) = range_of (upper_half n)"
    by (intro Suc.IH) (simp add: prefixlen_halves)
  then show ?case
    using range_halves(1)[of n] Suc.prems by simp
qed

lemma disjoint_buddy_chain:
  "prefixlen n + k \<le> 32 \<Longrightarrow>
     sorted_wrt (\<lambda>x y. range_of x \<inter> range_of y = {}) (buddy_chain n k)"
proof (induction k arbitrary: n)
  case 0
  then show ?case by simp
next
  case (Suc k)
  then have le: "prefixlen (upper_half n) + k \<le> 32" by (simp add: prefixlen_halves)
  have "\<Union> (range_of ` set (buddy_chain (upper_half n) k)) = range_of (upper_half n)"
    using le by (rule union_buddy_chain)
  then have "\<forall>y\<in>set (buddy_chain (upper_half n) k). range_of y \<subseteq> range_of (upper_half n)"
    by blast
  then have "\<forall>y\<in>set (buddy_chain (upper_half n) k). range_of (lower_half n) \<inter> range_of y = {}"
    using range_halves(2)[of n] Suc.prems by fastforce
  then show ?case
    using Suc.IH[OF le] by simp
qed

lemma range_nonempty: "range_of n \<noteq> {}"
  using hostsize_pos[of n] by (simp add: range_of_def)

lemma sorted_wrt_irrefl_distinct:
  "sorted_wrt P xs \<Longrightarrow> (\<And>x. \<not> P x x) \<Longrightarrow> distinct xs"
  by (induction xs) auto

lemma distinct_buddy_chain:
  assumes "prefixlen n + k \<le> 32"
  shows "distinct (buddy_chain n k)"
  by (rule sorted_wrt_irrefl_distinct[OF disjoint_buddy_chain[OF assms]])
    (simp add: range_nonempty)

lemma compressed_inj:
  assumes "valid_network n" "valid_network m" "compressed n = compressed m"
  shows "n = m"
proof -
  have "IPv4Network (compressed m) = Inr n"
    using IPv4Network_compressed[OF assms(1)] unfolding assms(3) .
  moreover have "IPv4Network (compressed m) = Inr m"
    by (rule IPv4Network_compressed[OF assms(2)])
  ultimately have "(Inr n :: exn + network) = Inr m" by (rule trans[OF sym])
  then show ?thesis by (rule Inr_inject)
qed

lemma parse_buddy_chain:
  assumes "valid_network n" "prefixlen n + k \<le> 32"
  shows "map IPv4Network (map compressed (buddy_chain n k)) = map Inr (buddy_chain n k)"
  using valid_buddy_chain[OF assms]
  by (simp add: list_all_iff IPv4Network_compressed)

lemma distinct_compressed_chain:
  assumes "valid_network n" "prefixlen n + k \<le> 32"
  shows "distinct (map compressed (buddy_chain n k))"
  using valid_buddy_chain[OF assms] distinct_buddy_chain[OF assms(2)]
  by (auto simp: distinct_map inj_on_def list_all_iff dest: compressed_inj)

lemma chain_keys_differ_from_block:
  assumes "IPv4Network ip_block = Inr parent" "valid_network parent"
    "prefixlen parent + Suc k \<le> 32"
  shows "ip_block \<notin> set (map compressed (buddy_chain parent (Suc k)))"
proof
  assume "ip_block \<in> set (map compressed (buddy_chain parent (Suc k)))"
  then have "ip_block \<in> compressed ` set (buddy_chain parent (Suc k))"
    by (simp only: set_map)
  then obtain m where m: "m \<in> set (buddy_chain parent (Suc k))" "ip_block = compressed m"
    by blast
  have "valid_network m"
    using valid_buddy_chain[OF assms(2,3)] m(1) by (auto simp: list_all_iff)
  then have "IPv4Network ip_block = Inr m" unfolding m(2) by (rule IPv4Network_compressed)
  then have "m = parent" using assms(1) by simp
  then show False using prefixlen_buddy_chain_gt[OF m(1)] by simp
qed

lemma slicing_steps:
  assumes "IPv4Network ip_block = Inr parent" "int (prefixlen parent) < netmask" "netmask \<le> 32"
  obtains k where "nat (netmask - int (prefixlen parent)) = Suc k"
    "prefixlen parent + Suc k \<le> 32" "int (prefixlen parent + Suc k) = netmask"
    "cidr_slicing ip_block netmask = Inr (map compressed (buddy_chain parent (Suc k)))"
proof -
  obtain k where k: "nat (netmask - int (prefixlen parent)) = Suc k"
    using assms(2) by (cases "nat (netmask - int (prefixlen parent))") auto
  moreover have "prefixlen parent + Suc k \<le> 32" "int (prefixlen parent + Suc k) = netmask"
    using k assms(2,3) by linarith+
  moreover have "cidr_slicing ip_block netmask = Inr (map compressed (buddy_chain parent (Suc k)))"
    using cidr_slicing_chain[OF assms] unfolding k .
  ultimately show ?thesis by (rule that)
qed

lemma nth_buddy_chain_penultimate:
  "prefixlen (buddy_chain n (Suc k) ! k) = prefixlen n + Suc k"
  by (induction k arbitrary: n) (simp_all add: prefixlen_halves)

lemma nth_buddy_chain_last:
  "prefixlen (buddy_chain n k ! k) = prefixlen n + k"
  by (induction k arbitrary: n) (simp_all add: prefixlen_halves)

lemma last3_compressed:
  assumes "10 \<le> prefixlen m" "prefixlen m < 100"
  shows "last3 (compressed m) = CHR ''/'' # str_nat (prefixlen m)"
  using length_str_nat_2[OF assms]
  by (simp add: last3_def compressed_def)

lemma attr_after_slicing:
  assumes "k \<in> set network_list" "k \<noteq> ip_block"
  shows "attr k ''availability''
           (delete_item ip_block (mark_in_use a co assigned sz
              (add_slices r network_list db)))
         = Some (if k = assigned then ''in-use'' else ''available'')"
    and "attr k ''size''
           (delete_item ip_block (mark_in_use a co assigned sz
              (add_slices r network_list db)))
         = Some (if k = assigned then sz else last3 k)"
  using assms by (simp_all add: attr_delete_item attr_mark_in_use attr_add_slices)

lemma slice_and_claim_chain:
  assumes "IPv4Network ip_block = Inr parent" "prefixlen parent + Suc k \<le> 32"
    "cidr_slicing ip_block netmask = Inr (map compressed (buddy_chain parent (Suc k)))"
  shows "slice_and_claim a co ip_block netmask db =
           (Inr (map compressed (buddy_chain parent (Suc k)) ! k),
            delete_item ip_block
              (mark_in_use a co (map compressed (buddy_chain parent (Suc k)) ! k)
                 (last3 (map compressed (buddy_chain parent (Suc k)) ! k))
                 (add_slices (base_region a) (map compressed (buddy_chain parent (Suc k))) db)))"
proof -
  have "index_neg2 (map compressed (buddy_chain parent (Suc k)))
          = Inr (map compressed (buddy_chain parent (Suc k)) ! k)"
    by (simp add: index_neg2_def length_buddy_chain del: buddy_chain.simps)
  then show ?thesis
    unfolding slice_and_claim_def assms(3) by simp
qed

lemma sizes_after_slicing:
  assumes "IPv4Network ip_block = Inr parent"
    "int (prefixlen parent) < netmask" "netmask \<le> 32"
  shows "\<exists>network_list. cidr_slicing ip_block netmask = Inr network_list \<and>
           list_all (\<lambda>network. \<exists>m. IPv4Network network = Inr m \<and>
                        (10 \<le> prefixlen m \<longrightarrow>
                           attr network ''size'' (add_slices (base_region a) network_list db)
                             = Some (CHR ''/'' # str_nat (prefixlen m)) \<and>
                           attr network ''size'' (snd (slice_and_claim a co ip_block netmask db))
                             = Some (CHR ''/'' # str_nat (prefixlen m))))
                    network_list"
proof -
  from assms obtain k where k: "nat (netmask - int (prefixlen parent)) = Suc k"
    "prefixlen parent + Suc k \<le> 32" "int (prefixlen parent + Suc k) = netmask"
    "cidr_slicing ip_block netmask = Inr (map compressed (buddy_chain parent (Suc k)))"
    by (rule slicing_steps)
  define nets where "nets = buddy_chain parent (Suc k)"
  define nl where "nl = map compressed nets"
  have v: "valid_network parent" using assms(1) by (rule IPv4Network_valid)
  have notin: "ip_block \<notin> set nl"
    unfolding nl_def nets_def using assms(1) v k(2) by (rule chain_keys_differ_from_block)
  have run: "slice_and_claim a co ip_block netmask db =
      (Inr (nl ! k), delete_item ip_block (mark_in_use a co (nl ! k) (last3 (nl ! k))
          (add_slices (base_region a) nl db)))"
    unfolding nl_def nets_def using assms(1) k(2,4) by (rule slice_and_claim_chain)
  have one: "\<exists>m. IPv4Network network = Inr m \<and>
               (10 \<le> prefixlen m \<longrightarrow>
                  attr network ''size'' (add_slices (base_region a) nl db)
                    = Some (CHR ''/'' # str_nat (prefixlen m)) \<and>
                  attr network ''size'' (snd (slice_and_claim a co ip_block netmask db))
                    = Some (CHR ''/'' # str_nat (prefixlen m)))"
    if "network \<in> set nl" for network
  proof -
    from that obtain m where m: "m \<in> set nets" "network = compressed m"
      unfolding nl_def by auto
    have vm: "valid_network m"
      using valid_buddy_chain[OF v k(2)] m(1) unfolding nets_def list_all_iff by blast
    have pm: "IPv4Network network = Inr m"
      unfolding m(2) using vm by (rule IPv4Network_compressed)
    have sizes: "attr network ''size'' (add_slices (base_region a) nl db)
                    = Some (CHR ''/'' # str_nat (prefixlen m)) \<and>
                  attr network ''size'' (snd (slice_and_claim a co ip_block netmask db))
                    = Some (CHR ''/'' # str_nat (prefixlen m))"
      if ten: "10 \<le> prefixlen m"
    proof -
      have "prefixlen m < 100" using vm by (simp add: valid_network_def)
      with ten have l3: "last3 network = CHR ''/'' # str_nat (prefixlen m)"
        unfolding m(2) by (rule last3_compressed)
      have mid: "attr network ''size'' (add_slices (base_region a) nl db) = Some (last3 network)"
        using \<open>network \<in> set nl\<close> by (rule attr_add_slices(2))
      have "network \<noteq> ip_block" using \<open>network \<in> set nl\<close> notin by auto
      with \<open>network \<in> set nl\<close>
      have "attr network ''size'' (snd (slice_and_claim a co ip_block netmask db))
          = Some (if network = nl ! k then last3 (nl ! k) else last3 network)"
        unfolding run snd_conv by (rule attr_after_slicing(2))
      then have "attr network ''size'' (snd (slice_and_claim a co ip_block netmask db))
          = Some (last3 network)"
        by (simp split: if_splits)
      with mid show ?thesis unfolding l3 by simp
    qed
    from pm sizes show ?thesis by blast
  qed
  have "cidr_slicing ip_block netmask = Inr nl" unfolding nl_def nets_def by (rule k(4))
  then show ?thesis using one by (auto simp: list_all_iff)
qed

section \<open>Keys, disjoint pools and successful runs\<close>

lemma cidr_overlaps_iff: "cidr_overlaps k k' \<longleftrightarrow> cidr_range k \<inter> cidr_range k' \<noteq> {}"
  by (auto simp: cidr_overlaps_def cidr_range_def overlaps_iff split: sum.splits)

lemma parses_iff: "parses k \<longleftrightarrow> (\<exists>n. IPv4Network k = Inr n)"
  by (auto simp: parses_def split: sum.splits)

lemma cidr_range_parsed: "IPv4Network k = Inr n \<Longrightarrow> cidr_range k = range_of n"
  by (simp add: cidr_range_def)

lemma no_overlap_iff:
  "no_overlap ks \<longleftrightarrow> (\<forall>k\<in>set ks. \<forall>k'\<in>set ks. k \<noteq> k' \<longrightarrow> cidr_range k \<inter> cidr_range k' = {})"
  by (auto simp: no_overlap_def list_all_iff cidr_overlaps_iff)

lemma keys_update_item:
  "keys (update_item k sets db) = (if k \<in> set (keys db) then keys db else keys db @ [k])"
  by (simp add: keys_def update_item_def update_keys)

lemma keys_delete_item: "keys (delete_item k db) = removeAll k (keys db)"
  by (simp add: keys_def delete_item_def delete_keys)

lemma set_keys_update_item: "set (keys (update_item k sets db)) = insert k (set (keys db))"
  by (auto simp: keys_update_item)

lemma distinct_keys_update_item: "distinct (keys db) \<Longrightarrow> distinct (keys (update_item k sets db))"
  by (simp add: keys_update_item)

lemma set_keys_add_slices: "set (keys (add_slices r ns db)) = set (keys db) \<union> set ns"
  by (induction ns rule: rev_induct)
    (auto simp: add_slices_Nil add_slices_snoc set_keys_update_item)

lemma distinct_keys_add_slices: "distinct (keys db) \<Longrightarrow> distinct (keys (add_slices r ns db))"
  by (induction ns rule: rev_induct)
    (simp_all add: add_slices_Nil add_slices_snoc distinct_keys_update_item)

lemma keys_after_slicing:
  assumes "distinct (keys db)" "assigned \<in> set ns"
  shows "set (keys (delete_item ip_block (mark_in_use a co assigned sz (add_slices r ns db))))
           = (set (keys db) \<union> set ns) - {ip_block}"
    and "distinct (keys (delete_item ip_block (mark_in_use a co assigned sz (add_slices r ns db))))"
  using assms
  by (auto simp: keys_delete_item mark_in_use_def set_keys_update_item set_keys_add_slices
      distinct_keys_update_item distinct_keys_add_slices distinct_removeAll)

lemma attr_of_record:
  assumes "distinct (keys db)" "r \<in> set (ip_allocations db)"
  shows "attr (fst r) name db = map_of (snd r) name"
proof -
  have "map_of (ip_allocations db) (fst r) = Some (snd r)"
    using assms by (intro map_of_is_SomeI) (simp_all add: keys_def)
  then show ?thesis by (simp add: attr_def get_item_def)
qed

lemma attr_Some_key: "attr k name db = Some v \<Longrightarrow> k \<in> set (keys db)"
  by (auto simp: attr_def get_item_def keys_def split: option.splits dest: map_of_SomeD
      intro: rev_image_eqI)

lemma scan_available:
  "set (fst (scan sz ''available'' region db)) \<subseteq> available_records db"
  "ip_allocations (snd (scan sz ''available'' region db)) = ip_allocations db"
  by (auto simp: scan_def matches_def available_records_def)

lemma available_records_scan:
  "available_records (snd (scan sz av rg db)) = available_records db"
  by (simp add: available_records_def scan_def)

lemma widen_success:
  "widen region netmask response db = (Inr response', db') \<Longrightarrow>
   set response \<subseteq> available_records db \<Longrightarrow>
   ip_allocations db' = ip_allocations db \<and> response' \<noteq> [] \<and>
   set response' \<subseteq> available_records db"
proof (induction region netmask response db rule: widen.induct)
  case (1 region netmask response db)
  note u = widen.simps[of region netmask response db]
  show ?case
  proof (cases "length response = 0")
    case False
    with "1.prems" show ?thesis unfolding u by simp
  next
    case True
    show ?thesis
    proof (cases "netmask - 1 < 16")
      case True
      with \<open>length response = 0\<close> "1.prems"(1) show ?thesis unfolding u by simp
    next
      case False
      let ?s = "scan (''/'' @ str (netmask - 1)) ''available'' region db"
      from False \<open>length response = 0\<close> "1.prems"(1)
      have w: "widen region (netmask - 1) (fst ?s) (snd ?s) = (Inr response', db')"
        unfolding u by simp
      have "set (fst ?s) \<subseteq> available_records (snd ?s)"
        unfolding available_records_scan by (rule scan_available)
      from "1.IH"[OF \<open>length response = 0\<close> False w this]
      show ?thesis by (simp add: scan_available available_records_scan)
    qed
  qed
qed

lemma same_table:
  assumes "ip_allocations db2 = ip_allocations db"
  shows "attr k name db2 = attr k name db" "keys db2 = keys db"
    "disjoint_pool db2 = disjoint_pool db"
  using assms by (simp_all add: attr_def get_item_def keys_def disjoint_pool_def)

lemma main_automatic_success:
  assumes "main a db = (Inr new_cidr, db')" "manual_cidr a = ''no''" "distinct (keys db)"
  obtains (direct) co db2 where
      "attr new_cidr ''availability'' db = Some ''available''"
      "ip_allocations db2 = ip_allocations db"
      "db' = update_item new_cidr [(''availability'', ''in-use''), (''account_id'', account_id a),
                                   (''config_options'', co)] db2"
  | (sliced) ip_block co db2 netmask where
      "attr ip_block ''availability'' db = Some ''available''"
      "ip_allocations db2 = ip_allocations db"
      "10 \<le> netmask" "netmask \<le> 29"
      "slice_and_claim a co ip_block netmask db2 = (Inr new_cidr, db')"
proof -
  have re: "ip_re_match (ip_allocation a)"
    using assms(1) by (auto simp: main_def split: if_splits)
  then obtain netmask where n:
    "int_of_str (strip (\<lambda>c. c = CHR ''/'') (ip_allocation a)) = Inr netmask"
    "10 \<le> netmask" "netmask \<le> 29"
    using netmask_of_ip_allocation by blast
  let ?s = "scan (ip_allocation a) ''available'' (base_region a) db"
  obtain res db2 where w: "widen (base_region a) netmask (fst ?s) (snd ?s) = (res, db2)"
    by (cases "widen (base_region a) netmask (fst ?s) (snd ?s)")
  have aa: "allocate_automatic a db = (Inr new_cidr, db')"
    using assms(1,2) re by (simp add: main_def)
  then obtain response where res: "res = Inr response"
    using n(1) w by (cases res) (auto simp: allocate_automatic_def split_beta)
  from aa obtain co where co: "config_options_of a = Inr co"
    using n(1) w res
    by (cases "config_options_of a") (auto simp: allocate_automatic_def split_beta)
  have "set (fst ?s) \<subseteq> available_records (snd ?s)"
    unfolding available_records_scan by (rule scan_available)
  from widen_success[OF w[unfolded res] this]
  have t: "ip_allocations db2 = ip_allocations db" "response \<noteq> []"
    "set response \<subseteq> available_records db"
    by (simp_all add: scan_available available_records_scan)
  then obtain CIDR rest where r: "response = CIDR # rest" by (cases response) auto
  with t(3) have "CIDR \<in> set (ip_allocations db)"
    "map_of (snd CIDR) ''availability'' = Some ''available''"
    by (auto simp: available_records_def)
  then have av: "attr (fst CIDR) ''availability'' db = Some ''available''"
    using attr_of_record[OF assms(3), of CIDR] by simp
  show ?thesis
  proof (cases "str_in (ip_allocation a) (fst CIDR)")
    case True
    with aa n(1) w res co r
    have "new_cidr = fst CIDR"
      "db' = update_item (fst CIDR) [(''availability'', ''in-use''),
               (''account_id'', account_id a), (''config_options'', co)] db2"
      by (auto simp: allocate_automatic_def split_beta Let_def)
    with av t(1) show ?thesis by (intro direct[where co=co and ?db2.0=db2]) simp_all
  next
    case False
    with aa n(1) w res co r
    have "slice_and_claim a co (fst CIDR) netmask db2 = (Inr new_cidr, db')"
      by (auto simp: allocate_automatic_def split_beta Let_def)
    with av t(1) n(2,3) show ?thesis by (intro sliced[where ip_block="fst CIDR" and ?db2.0=db2 and netmask=netmask and co=co])
  qed
qed

lemma slice_and_claim_success:
  assumes "slice_and_claim a co ip_block netmask db = (Inr new_cidr, db')"
    "IPv4Network ip_block = Inr parent" "netmask \<le> 32"
  obtains k where "prefixlen parent + Suc k \<le> 32"
    "new_cidr = map compressed (buddy_chain parent (Suc k)) ! k"
    "db' = delete_item ip_block
              (mark_in_use a co new_cidr (last3 new_cidr)
                 (add_slices (base_region a) (map compressed (buddy_chain parent (Suc k))) db))"
proof (cases "int (prefixlen parent) < netmask")
  case False
  then have "cidr_slicing ip_block netmask = Inr []"
    using cidr_slicing_empty[OF assms(2), of netmask] by simp
  with assms(1) show ?thesis by (simp add: slice_and_claim_def index_neg2_def)
next
  case True
  with assms(2,3) obtain k where k: "prefixlen parent + Suc k \<le> 32"
    "cidr_slicing ip_block netmask = Inr (map compressed (buddy_chain parent (Suc k)))"
    using slicing_steps[OF assms(2) True assms(3)] by metis
  from slice_and_claim_chain[OF assms(2) k, of a co db] assms(1)
  show ?thesis using k(1) by (intro that[where k=k]) simp_all
qed

lemma sorted_wrt_sym_pairwise:
  "sorted_wrt P xs \<Longrightarrow> (\<And>x y. P x y \<Longrightarrow> P y x) \<Longrightarrow> x \<in> set xs \<Longrightarrow> y \<in> set xs \<Longrightarrow>
     x \<noteq> y \<Longrightarrow> P x y"
  by (induction xs) auto

lemma chain_ranges:
  assumes "prefixlen parent + k \<le> 32" "m \<in> set (buddy_chain parent k)"
  shows "range_of m \<subseteq> range_of parent"
  using union_buddy_chain[OF assms(1)] assms(2) by blast

lemma chain_ranges_disjoint:
  assumes "prefixlen parent + k \<le> 32" "m \<in> set (buddy_chain parent k)"
    "m' \<in> set (buddy_chain parent k)" "m \<noteq> m'"
  shows "range_of m \<inter> range_of m' = {}"
  by (rule sorted_wrt_sym_pairwise[OF disjoint_buddy_chain[OF assms(1)] _ assms(2,3,4)]) blast

lemma disjoint_poolD:
  assumes "disjoint_pool db"
  shows "distinct (keys db)"
    and "\<And>k. k \<in> set (keys db) \<Longrightarrow> \<exists>n. IPv4Network k = Inr n"
    and "\<And>k k'. k \<in> set (keys db) \<Longrightarrow> k' \<in> set (keys db) \<Longrightarrow> k \<noteq> k' \<Longrightarrow>
           cidr_range k \<inter> cidr_range k' = {}"
  using assms by (auto simp: disjoint_pool_def list_all_iff parses_iff no_overlap_iff)

lemma disjoint_poolI:
  assumes "distinct (keys db)"
    and "\<And>k. k \<in> set (keys db) \<Longrightarrow> \<exists>n. IPv4Network k = Inr n"
    and "\<And>k k'. k \<in> set (keys db) \<Longrightarrow> k' \<in> set (keys db) \<Longrightarrow> k \<noteq> k' \<Longrightarrow>
           cidr_range k \<inter> cidr_range k' = {}"
  shows "disjoint_pool db"
  using assms by (auto simp: disjoint_pool_def list_all_iff parses_iff no_overlap_iff)

lemma disjoint_pool_same_keys:
  "set (keys db') = set (keys db) \<Longrightarrow> distinct (keys db') \<Longrightarrow> disjoint_pool db \<Longrightarrow>
     disjoint_pool db'"
  by (auto simp: disjoint_pool_def list_all_iff no_overlap_iff)

text \<open>The facts about a block that has been cut, collected once.\<close>

lemma sliced_facts:
  assumes inv: "disjoint_pool db" and blk: "ip_block \<in> set (keys db)"
    and par: "IPv4Network ip_block = Inr parent" and le: "prefixlen parent + Suc k \<le> 32"
    and c: "c \<in> set (map compressed (buddy_chain parent (Suc k)))"
  shows "c \<noteq> ip_block" "c \<notin> set (keys db)" "\<exists>n. IPv4Network c = Inr n"
    "cidr_range c \<subseteq> cidr_range ip_block"
proof -
  have v: "valid_network parent" using par by (rule IPv4Network_valid)
  from c have "c \<in> compressed ` set (buddy_chain parent (Suc k))" by (simp only: set_map)
  then obtain m where m: "m \<in> set (buddy_chain parent (Suc k))" "c = compressed m" by blast
  have vm: "valid_network m"
    using valid_buddy_chain[OF v le] m(1) unfolding list_all_iff by blast
  have pm: "IPv4Network c = Inr m" unfolding m(2) using vm by (rule IPv4Network_compressed)
  then show "\<exists>n. IPv4Network c = Inr n" by blast
  show ne: "c \<noteq> ip_block"
    using chain_keys_differ_from_block[OF par v le] c by blast
  have "range_of m \<subseteq> range_of parent" using le m(1) by (rule chain_ranges)
  then show sub: "cidr_range c \<subseteq> cidr_range ip_block"
    by (simp add: cidr_range_parsed[OF pm] cidr_range_parsed[OF par])
  show "c \<notin> set (keys db)"
  proof
    assume "c \<in> set (keys db)"
    from disjoint_poolD(3)[OF inv this blk ne] sub have "cidr_range c = {}" by blast
    then show False by (simp add: cidr_range_parsed[OF pm] range_nonempty)
  qed
qed

lemma sliced_children_disjoint:
  assumes par: "IPv4Network ip_block = Inr parent" and le: "prefixlen parent + Suc k \<le> 32"
    and c: "c \<in> set (map compressed (buddy_chain parent (Suc k)))"
    and c': "c' \<in> set (map compressed (buddy_chain parent (Suc k)))" and ne: "c \<noteq> c'"
  shows "cidr_range c \<inter> cidr_range c' = {}"
proof -
  have v: "valid_network parent" using par by (rule IPv4Network_valid)
  from c have "c \<in> compressed ` set (buddy_chain parent (Suc k))" by (simp only: set_map)
  then obtain m where m: "m \<in> set (buddy_chain parent (Suc k))" "c = compressed m" by blast
  from c' have "c' \<in> compressed ` set (buddy_chain parent (Suc k))" by (simp only: set_map)
  then obtain m' where m': "m' \<in> set (buddy_chain parent (Suc k))" "c' = compressed m'" by blast
  have "valid_network m" "valid_network m'"
    using valid_buddy_chain[OF v le] m(1) m'(1) unfolding list_all_iff by blast+
  then have p: "IPv4Network c = Inr m" "IPv4Network c' = Inr m'"
    unfolding m(2) m'(2) by (simp_all add: IPv4Network_compressed)
  have "m \<noteq> m'" using ne m(2) m'(2) by blast
  then have "range_of m \<inter> range_of m' = {}"
    using chain_ranges_disjoint[OF le m(1) m'(1)] by blast
  then show ?thesis by (simp add: cidr_range_parsed[OF p(1)] cidr_range_parsed[OF p(2)])
qed

lemma run_step:
  assumes inv: "disjoint_pool db" and run: "main a db = (Inr new_cidr, db')"
    and auto: "manual_cidr a = ''no''"
  shows "disjoint_pool db'"
    and "attr new_cidr ''availability'' db' = Some ''in-use''"
    and "attr new_cidr ''availability'' db \<noteq> Some ''in-use''"
    and "\<And>k. attr k ''availability'' db = Some ''in-use'' \<Longrightarrow>
           attr k ''availability'' db' = Some ''in-use''"
proof -
  note dk = disjoint_poolD(1)[OF inv]
  have "disjoint_pool db' \<and> attr new_cidr ''availability'' db' = Some ''in-use'' \<and>
        attr new_cidr ''availability'' db \<noteq> Some ''in-use'' \<and>
        (\<forall>k. attr k ''availability'' db = Some ''in-use'' \<longrightarrow>
           attr k ''availability'' db' = Some ''in-use'')"
    using run auto dk
  proof (cases rule: main_automatic_success)
    case (direct co db2)
    have key: "new_cidr \<in> set (keys db2)"
      using attr_Some_key[OF direct(1)] by (simp add: same_table(2)[OF direct(2)])
    then have "keys db' = keys db"
      unfolding direct(3) by (simp add: keys_update_item same_table(2)[OF direct(2)])
    then have "disjoint_pool db'" using inv dk by (intro disjoint_pool_same_keys[of db' db]) simp_all
    then show ?thesis
      using direct(1) unfolding direct(3)
      by (simp add: attr_update_item same_table(1)[OF direct(2)])
  next
    case (sliced ip_block co db2 netmask)
    have blk: "ip_block \<in> set (keys db)" using attr_Some_key[OF sliced(1)] .
    then obtain parent where par: "IPv4Network ip_block = Inr parent"
      using disjoint_poolD(2)[OF inv] by blast
    from sliced(4) have "netmask \<le> 32" by simp
    from slice_and_claim_success[OF sliced(5) par this]
    obtain k where k: "prefixlen parent + Suc k \<le> 32"
      "new_cidr = map compressed (buddy_chain parent (Suc k)) ! k"
      "db' = delete_item ip_block
              (mark_in_use a co new_cidr (last3 new_cidr)
                 (add_slices (base_region a) (map compressed (buddy_chain parent (Suc k))) db2))"
      by blast
    define nl where "nl = map compressed (buddy_chain parent (Suc k))"
    note facts = sliced_facts[OF inv blk par k(1), folded nl_def]
    have new: "new_cidr \<in> set nl"
      unfolding k(2) nl_def by (rule nth_mem) (simp add: length_buddy_chain del: buddy_chain.simps)
    have dk2: "distinct (keys db2)" using dk by (simp add: same_table(2)[OF sliced(2)])
    have ks: "set (keys db') = (set (keys db) \<union> set nl) - {ip_block}" "distinct (keys db')"
      unfolding k(3) nl_def[symmetric]
      using keys_after_slicing[OF dk2 new, of ip_block a co "last3 new_cidr" "base_region a"]
      by (simp_all add: same_table(2)[OF sliced(2)])
    have 1: "disjoint_pool db'"
    proof (rule disjoint_poolI)
      show "distinct (keys db')" by (rule ks(2))
    next
      fix x assume "x \<in> set (keys db')"
      then show "\<exists>n. IPv4Network x = Inr n"
        using ks(1) facts(3) disjoint_poolD(2)[OF inv] by blast
    next
      fix x y assume xy: "x \<in> set (keys db')" "y \<in> set (keys db')" "x \<noteq> y"
      then consider "x \<in> set nl" "y \<in> set nl"
        | "x \<in> set nl" "y \<in> set (keys db)" "y \<noteq> ip_block"
        | "x \<in> set (keys db)" "x \<noteq> ip_block" "y \<in> set nl"
        | "x \<in> set (keys db)" "y \<in> set (keys db)"
        unfolding ks(1) by blast
      then show "cidr_range x \<inter> cidr_range y = {}"
      proof cases
        case 1
        then show ?thesis
          unfolding nl_def using sliced_children_disjoint[OF par k(1) _ _ xy(3)] by blast
      next
        case 2
        from disjoint_poolD(3)[OF inv 2(2) blk 2(3)] facts(4)[OF 2(1)] show ?thesis by blast
      next
        case 3
        from disjoint_poolD(3)[OF inv 3(1) blk 3(2)] facts(4)[OF 3(3)] show ?thesis by blast
      next
        case 4
        then show ?thesis using disjoint_poolD(3)[OF inv _ _ xy(3)] by blast
      qed
    qed
    have 2: "attr new_cidr ''availability'' db' = Some ''in-use''"
      unfolding k(3) nl_def[symmetric]
      using attr_after_slicing(1)[OF new facts(1)[OF new], of a co new_cidr] by simp
    have 3: "attr new_cidr ''availability'' db \<noteq> Some ''in-use''"
      using facts(2)[OF new] attr_Some_key by blast
    have 4: "attr x ''availability'' db' = Some ''in-use''"
      if "attr x ''availability'' db = Some ''in-use''" for x
    proof -
      have "x \<in> set (keys db)" using that by (rule attr_Some_key)
      then have "x \<notin> set nl" using facts(2) by blast
      moreover have "x \<noteq> ip_block" using that sliced(1) by auto
      moreover have "x \<noteq> new_cidr" using \<open>x \<notin> set nl\<close> new by blast
      ultimately show ?thesis
        unfolding k(3) nl_def[symmetric] using that
        by (simp add: attr_delete_item attr_mark_in_use attr_add_slices_other
            same_table(1)[OF sliced(2)])
    qed
    from 1 2 3 4 show ?thesis by blast
  qed
  then show "disjoint_pool db'"
    and "attr new_cidr ''availability'' db' = Some ''in-use''"
    and "attr new_cidr ''availability'' db \<noteq> Some ''in-use''"
    and "\<And>k. attr k ''availability'' db = Some ''in-use'' \<Longrightarrow>
           attr k ''availability'' db' = Some ''in-use''"
    by blast+
qed

lemma reorder_keys:
  assumes "mset (ip_allocations db') = mset (ip_allocations db)"
  shows "set (keys db') = set (keys db)" "distinct (keys db') = distinct (keys db)"
proof -
  have "mset (keys db') = mset (keys db)"
    unfolding keys_def mset_map assms ..
  then show "set (keys db') = set (keys db)" "distinct (keys db') = distinct (keys db)"
    by (rule mset_eq_setD, rule mset_eq_imp_distinct_iff)
qed

lemma reorder_attr:
  assumes "mset (ip_allocations db') = mset (ip_allocations db)" "distinct (keys db)"
  shows "attr k name db' = attr k name db"
proof -
  have "distinct (map fst (ip_allocations db'))" "distinct (map fst (ip_allocations db))"
    using reorder_keys(2)[OF assms(1)] assms(2) by (simp_all add: keys_def)
  moreover have "set (ip_allocations db') = set (ip_allocations db)"
    using assms(1) by (rule mset_eq_setD)
  ultimately have "map_of (ip_allocations db') = map_of (ip_allocations db)"
    by (simp add: map_of_inject_set)
  then show ?thesis by (simp add: attr_def get_item_def)
qed

lemma no_overlap_subset:
  "no_overlap ks \<Longrightarrow> set ks' \<subseteq> set ks \<Longrightarrow> no_overlap ks'"
  unfolding no_overlap_iff by blast

lemma runs_invariant:
  assumes "runs db0 db claimed" "disjoint_pool db0"
  shows "disjoint_pool db \<and> distinct claimed \<and>
         list_all (\<lambda>k. attr k ''availability'' db = Some ''in-use'') claimed"
  using assms
proof (induction rule: runs.induct)
  case runs_start
  then show ?case by simp
next
  case (runs_alloc db claimed a new_cidr db')
  then have inv: "disjoint_pool db" "distinct claimed"
    "list_all (\<lambda>k. attr k ''availability'' db = Some ''in-use'') claimed"
    by simp_all
  note step = run_step[OF inv(1) runs_alloc(3) runs_alloc(2)]
  have "new_cidr \<notin> set claimed"
    using inv(3) step(3) by (auto simp: list_all_iff)
  moreover have "list_all (\<lambda>k. attr k ''availability'' db' = Some ''in-use'') claimed"
    using inv(3) step(4) by (simp add: list_all_iff)
  ultimately show ?case using step(1,2) inv(2) by simp
next
  case (runs_reorder db claimed db')
  then have inv: "disjoint_pool db" "distinct claimed"
    "list_all (\<lambda>k. attr k ''availability'' db = Some ''in-use'') claimed"
    by simp_all
  note dk = disjoint_poolD(1)[OF inv(1)]
  have "disjoint_pool db'"
    using reorder_keys[OF runs_reorder(2)] dk inv(1)
    by (intro disjoint_pool_same_keys[of db' db]) simp_all
  then show ?case
    using inv(2,3) by (simp add: reorder_attr[OF runs_reorder(2) dk])
qed

lemma str_in_22_12: "str_in ''/22'' ''10.0.12.0/22''"
  by simp

lemma scenario_second_eval:
  "fst (main scenario_args scenario_db1) = Inr ''10.0.12.0/22''"
  unfolding scenario_db1_def scenario_eval
  by (simp add: scenario_args_def main_def allocate_automatic_def isdigit_def
      int_of_str_22 widen.simps table_eval Let_def)

lemma scenario_pool: "disjoint_pool scenario_db"
  by (simp add: disjoint_pool_def keys_def scenario_db_def no_overlap_def parses_def
      net_10_0_0_0_20)

section \<open>The block 10.0.0.0/8 cut for a /10, evaluated\<close>

lemma net_10_0_0_0_8:
  "IPv4Network ''10.0.0.0/8'' = Inr \<lparr>network_address = 167772160, prefixlen = 8\<rparr>"
proof -
  have "valid_network \<lparr>network_address = 167772160, prefixlen = 8\<rparr>"
    by (simp add: valid_network_def hostsize_def)
  from IPv4Network_compressed[OF this] show ?thesis by (simp add: str_eval)
qed

lemma net_10_0_0_0_9:
  "IPv4Network ''10.0.0.0/9'' = Inr \<lparr>network_address = 167772160, prefixlen = 9\<rparr>"
proof -
  have "valid_network \<lparr>network_address = 167772160, prefixlen = 9\<rparr>"
    by (simp add: valid_network_def hostsize_def)
  from IPv4Network_compressed[OF this] show ?thesis by (simp add: str_eval)
qed

lemma slicing_10_0_0_0_8:
  "cidr_slicing ''10.0.0.0/8'' 10 = Inr [''10.0.0.0/9'', ''10.128.0.0/10'', ''10.192.0.0/10'']"
  using cidr_slicing_chain[OF net_10_0_0_0_8, of 10]
  by (simp add: buddy_chain_numeral lower_half_def upper_half_def str_eval)

lemma slice_8_sizes:
  "attr ''10.0.0.0/9'' ''size'' (add_slices (base_region args_10)
      [''10.0.0.0/9'', ''10.128.0.0/10'', ''10.192.0.0/10''] db_8) = Some ''0/9''"
  "attr ''10.0.0.0/9'' ''size''
     (snd (slice_and_claim args_10 ''prod-us-west-2'' ''10.0.0.0/8'' 10 db_8)) = Some ''0/9''"
  by (simp_all add: slice_and_claim_def slicing_10_0_0_0_8 index_neg2_def attr_delete_item
      attr_mark_in_use attr_add_slices last3_def)

section \<open>The split when the block already has the wanted size\<close>

text \<open>
  C4 (amended).  When the target prefix length equals the prefix length of the block,
  \<open>cidr_slicing\<close> performs no split and returns the empty list: the loop body never
  runs, and the block itself is not put into the list.
\<close>

theorem cidr_slicing_same_prefix:
  "IPv4Network ip_block = Inr n \<Longrightarrow> cidr_slicing ip_block (int (prefixlen n)) = Inr []"
  using cidr_slicing_empty [of ip_block n "int (prefixlen n)"] by simp

theorem cidr_slicing_same_prefix_witness:
  "IPv4Network ''10.0.0.0/24'' = Inr \<lparr>network_address = 167772160, prefixlen = 24\<rparr> \<and>
   cidr_slicing ''10.0.0.0/24'' 24 = Inr []"
  using cidr_slicing_same_prefix [OF net_10_0_0_0_24] net_10_0_0_0_24 by simp

text \<open>
  C4 as stated fails: for the block 10.0.0.0/24 and the target 24 the result is not the
  one-element list holding the block.
\<close>

theorem cidr_slicing_same_prefix_counterexample:
  "cidr_slicing ''10.0.0.0/24'' 24 \<noteq> Inr [''10.0.0.0/24'']"
  using cidr_slicing_empty [OF net_10_0_0_0_24, of 24] by simp

section \<open>The manual override\<close>

text \<open>
  C8.  Whatever the table holds before, a run with a manual CIDR sends exactly one request
  to the table, an unconditional \<open>update_item\<close> for the given key (no scan and no
  read comes first), and afterwards the record under that key is in use with the given
  account, region and configuration tag and with the size argument as its size.  The
  right-hand sides do not mention the table the run started from.
\<close>

theorem manual_override:
  assumes "ip_re_match (ip_allocation a)" "manual_cidr a \<noteq> ''no''" "config_options_of a = Inr co"
  shows "fst (main a db) = Inr (manual_cidr a) \<and>
         block_view (manual_cidr a) (snd (main a db)) =
           [Some (ip_allocation a), Some ''in-use'', Some (account_id a), Some (base_region a), Some co] \<and>
         calls (snd (main a db)) =
           calls db @ [UpdateItem (manual_cidr a)
                         [(''size'', ip_allocation a), (''availability'', ''in-use''),
                          (''account_id'', account_id a), (''region'', base_region a),
                          (''config_options'', co)]]"
  using assms
  by (simp add: main_def allocate_manual_def block_view_def allocator_attrs_def attr_mark_in_use)
    (simp add: mark_in_use_def calls_update_item)

theorem manual_override_witness:
  "ip_re_match (ip_allocation manual_args) \<and> manual_cidr manual_args \<noteq> ''no'' \<and>
   config_options_of manual_args = Inr ''prod-us-west-2'' \<and>
   fst (main manual_args scenario_db) = Inr ''10.1.0.0/24'' \<and>
   block_view ''10.1.0.0/24'' (snd (main manual_args scenario_db)) =
     [Some ''/24'', Some ''in-use'', Some ''123456789012'', Some ''us-west-2'',
      Some ''prod-us-west-2'']"
proof -
  have h: "ip_re_match (ip_allocation manual_args)" "manual_cidr manual_args \<noteq> ''no''"
    "config_options_of manual_args = Inr ''prod-us-west-2''"
    by (simp_all add: manual_args_def isdigit_def config_options_of_def config_map_def)
  from manual_override [OF h, of scenario_db] h show ?thesis
    by (simp add: manual_args_def)
qed

section \<open>The order of the writes in the slicing branch\<close>

text \<open>
  C10.  In the slicing branch every element of the list that \<open>cidr_slicing\<close> returns,
  the block that is claimed among them, is first written as available; the claimed block
  is set to in-use only after that, and the original block is deleted last.  So the table
  passes through a state, the one after \<open>add_slices\<close>, in which the block about to
  be claimed is recorded as available.
\<close>

theorem claimed_block_first_available:
  assumes "cidr_slicing ip_block netmask = Inr network_list"
    and "index_neg2 network_list = Inr assigned"
  shows "list_all (\<lambda>network. attr network ''availability''
                     (add_slices (base_region a) network_list db) = Some ''available'')
           network_list \<and>
         attr assigned ''availability'' (add_slices (base_region a) network_list db)
           = Some ''available'' \<and>
         attr assigned ''availability''
           (mark_in_use a co assigned (last3 assigned)
              (add_slices (base_region a) network_list db)) = Some ''in-use'' \<and>
         snd (slice_and_claim a co ip_block netmask db) =
           delete_item ip_block
             (mark_in_use a co assigned (last3 assigned)
                (add_slices (base_region a) network_list db)) \<and>
         calls (snd (slice_and_claim a co ip_block netmask db)) =
           calls db @ slice_writes (base_region a) network_list @
           [UpdateItem assigned
              [(''size'', last3 assigned), (''availability'', ''in-use''),
               (''account_id'', account_id a), (''region'', base_region a),
               (''config_options'', co)],
            DeleteItem ip_block]"
proof -
  have m: "assigned \<in> set network_list"
    using assms(2) by (rule index_neg2_mem)
  have 1: "list_all (\<lambda>network. attr network ''availability''
                     (add_slices (base_region a) network_list db) = Some ''available'')
           network_list"
    by (simp add: list_all_iff attr_add_slices)
  have 2: "snd (slice_and_claim a co ip_block netmask db) =
           delete_item ip_block
             (mark_in_use a co assigned (last3 assigned)
                (add_slices (base_region a) network_list db))"
    using assms by (simp add: slice_and_claim_def)
  show ?thesis
    unfolding 2 using 1 m
    by (simp add: attr_add_slices attr_mark_in_use calls_delete_item calls_add_slices)
      (simp add: mark_in_use_def calls_update_item calls_add_slices)
qed

theorem claimed_block_first_available_witness:
  "cidr_slicing ''10.0.0.0/20'' 22 = Inr [''10.0.0.0/21'', ''10.0.8.0/22'', ''10.0.12.0/22''] \<and>
   index_neg2 [''10.0.0.0/21'', ''10.0.8.0/22'', ''10.0.12.0/22''] = Inr ''10.0.8.0/22'' \<and>
   attr ''10.0.8.0/22'' ''availability''
     (add_slices (base_region scenario_args)
        [''10.0.0.0/21'', ''10.0.8.0/22'', ''10.0.12.0/22''] scenario_db) = Some ''available'' \<and>
   attr ''10.0.8.0/22'' ''availability''
     (mark_in_use scenario_args ''prod-us-west-2'' ''10.0.8.0/22'' (last3 ''10.0.8.0/22'')
        (add_slices (base_region scenario_args)
           [''10.0.0.0/21'', ''10.0.8.0/22'', ''10.0.12.0/22''] scenario_db)) = Some ''in-use''"
proof -
  have h: "index_neg2 [''10.0.0.0/21'', ''10.0.8.0/22'', ''10.0.12.0/22''] = Inr ''10.0.8.0/22''"
    by (simp add: index_neg2_def)
  from claimed_block_first_available [OF slicing_10_0_0_0_20 h,
      of scenario_args scenario_db "''prod-us-west-2''"]
  show ?thesis using slicing_10_0_0_0_20 h by blast
qed

section \<open>The widening search on an empty pool\<close>

text \<open>
  C7.  For every size that passes the check of \<open>ip_allocation\<close>, a run against a
  pool that has no match for any size returns: it stops with the exit message of the
  exhausted pool and leaves the records as they were.  The scans it has sent are the one
  for the requested size and then one for each smaller prefix length, one step at a time,
  the last of them for 16 (none after the first when the requested size is 16 or less).
  \<open>main\<close> is a total function, so the equation says that the loop ends.
\<close>

theorem widening_terminates:
  assumes "ip_re_match (ip_allocation a)" "manual_cidr a = ''no''" "pool_empty (base_region a) db"
  shows "\<exists>netmask. int_of_str (strip (\<lambda>c. c = CHR ''/'') (ip_allocation a)) = Inr netmask \<and>
           10 \<le> netmask \<and> netmask \<le> 29 \<and>
           main a db =
             (Inl (SystemExit ''Not able to find an appropriately sized CIDR in the region. Please consult Cloud Services DevSecOps''),
              db\<lparr>calls := calls db @ Scan (ip_allocation a) ''available'' (base_region a)
                              # widen_scans (base_region a) netmask\<rparr>)"
proof -
  from netmask_of_ip_allocation[OF assms(1)] obtain netmask where
    n: "int_of_str (strip (\<lambda>c. c = CHR ''/'') (ip_allocation a)) = Inr netmask"
      "10 \<le> netmask" "netmask \<le> 29" by blast
  have pe: "pool_empty (base_region a)
      (db\<lparr>calls := calls db @ [Scan (ip_allocation a) ''available'' (base_region a)]\<rparr>)"
    using assms(3) by simp
  have "main a db =
             (Inl (SystemExit ''Not able to find an appropriately sized CIDR in the region. Please consult Cloud Services DevSecOps''),
              db\<lparr>calls := calls db @ Scan (ip_allocation a) ''available'' (base_region a)
                              # widen_scans (base_region a) netmask\<rparr>)"
    using assms(1,2) n(1)
    by (simp add: main_def allocate_automatic_def scan_pool_empty[OF assms(3)]
        widen_pool_empty[OF pe])
  with n show ?thesis by blast
qed

theorem widening_terminates_witness:
  "ip_re_match (ip_allocation eu_args) \<and> manual_cidr eu_args = ''no'' \<and>
   pool_empty (base_region eu_args) scenario_db \<and>
   main eu_args scenario_db =
     (Inl (SystemExit ''Not able to find an appropriately sized CIDR in the region. Please consult Cloud Services DevSecOps''),
      scenario_db\<lparr>calls :=
        [Scan ''/24'' ''available'' ''eu-west-1'', Scan ''/23'' ''available'' ''eu-west-1'',
         Scan ''/22'' ''available'' ''eu-west-1'', Scan ''/21'' ''available'' ''eu-west-1'',
         Scan ''/20'' ''available'' ''eu-west-1'', Scan ''/19'' ''available'' ''eu-west-1'',
         Scan ''/18'' ''available'' ''eu-west-1'', Scan ''/17'' ''available'' ''eu-west-1'',
         Scan ''/16'' ''available'' ''eu-west-1'']\<rparr>)"
proof -
  have h: "ip_re_match (ip_allocation eu_args)" "manual_cidr eu_args = ''no''"
    "pool_empty (base_region eu_args) scenario_db"
    by (simp_all add: eu_args_def scenario_db_def isdigit_def pool_empty_def)
  have n: "int_of_str (strip (\<lambda>c. c = CHR ''/'') (ip_allocation eu_args)) = Inr 24"
    by (simp add: eu_args_def int_of_str_def strip_def isspace_def isdigit_def int_of_digits_def
        digit_val_def)
  have w: "widen_scans ''eu-west-1'' 24 =
     [Scan ''/23'' ''available'' ''eu-west-1'',
         Scan ''/22'' ''available'' ''eu-west-1'', Scan ''/21'' ''available'' ''eu-west-1'',
         Scan ''/20'' ''available'' ''eu-west-1'', Scan ''/19'' ''available'' ''eu-west-1'',
         Scan ''/18'' ''available'' ''eu-west-1'', Scan ''/17'' ''available'' ''eu-west-1'',
         Scan ''/16'' ''available'' ''eu-west-1'']"
    by (simp add: widen_scans_def str_def str_eval upto_rec1)
  from widening_terminates [OF h] n w h show ?thesis
    by (auto simp: eu_args_def scenario_db_def)
qed

section \<open>The scenario of the specification\<close>

text \<open>
  C2 (amended).  From the table whose only record is the available block 10.0.0.0/20 of
  us-west-2, a request for a /22 ends with exactly three records: 10.0.0.0/21 available,
  10.0.8.0/22 in use and 10.0.12.0/22 available; the record 10.0.0.0/20 is deleted.  One
  /21 block is written, not two: the two halves of a /20 are the free /21 and the /21
  that is cut into the two /22 blocks.
\<close>

theorem scenario_run:
  "main scenario_args scenario_db =
     (Inr ''10.0.8.0/22'',
      \<lparr>ip_allocations =
         [(''10.0.0.0/21'', [(''size'', ''/21''), (''availability'', ''available''),
                             (''region'', ''us-west-2'')]),
          (''10.0.8.0/22'', [(''size'', ''/22''), (''availability'', ''in-use''),
                             (''region'', ''us-west-2''), (''account_id'', ''123456789012''),
                             (''config_options'', ''prod-us-west-2'')]),
          (''10.0.12.0/22'', [(''size'', ''/22''), (''availability'', ''available''),
                              (''region'', ''us-west-2'')])],
       calls =
         [Scan ''/22'' ''available'' ''us-west-2'',
          Scan ''/21'' ''available'' ''us-west-2'',
          Scan ''/20'' ''available'' ''us-west-2'',
          UpdateItem ''10.0.0.0/21'' [(''size'', ''/21''), (''availability'', ''available''),
                                      (''region'', ''us-west-2'')],
          UpdateItem ''10.0.8.0/22'' [(''size'', ''/22''), (''availability'', ''available''),
                                      (''region'', ''us-west-2'')],
          UpdateItem ''10.0.12.0/22'' [(''size'', ''/22''), (''availability'', ''available''),
                                       (''region'', ''us-west-2'')],
          UpdateItem ''10.0.8.0/22'' [(''size'', ''/22''), (''availability'', ''in-use''),
                                      (''account_id'', ''123456789012''),
                                      (''region'', ''us-west-2''),
                                      (''config_options'', ''prod-us-west-2'')],
          DeleteItem ''10.0.0.0/20'']\<rparr>)"
  by (simp add: scenario_args_def scenario_db_def main_def allocate_automatic_def isdigit_def
      int_of_str_22 widen.simps str_eval str_def slice_and_claim_def slicing_10_0_0_0_20
      table_eval)

text \<open>
  C2 as stated fails: after the run the table does not hold two available /21 blocks.
\<close>

theorem scenario_run_counterexample:
  "count_records ''/21'' ''available'' (snd (main scenario_args scenario_db)) \<noteq> 2"
  by (simp add: scenario_eval count_records_def)

section \<open>The check of the size argument\<close>

text \<open>
  What \<open>ip_re\<close> accepts: a slash and two characters, the first 1 or 2 and the second
  a digit, with or without a newline after them.  These are the sizes /10 to /29.
\<close>

lemma ip_re_match_iff:
  "ip_re_match s \<longleftrightarrow>
     (\<exists>c1 c2. (c1 = CHR ''1'' \<or> c1 = CHR ''2'') \<and> isdigit c2 \<and>
        (s = [CHR ''/'', c1, c2] \<or> s = [CHR ''/'', c1, c2, CHR 0x0A]))"
  by (cases s rule: ip_re_match.cases) auto

lemma size_check_rejects:
  "\<not> ip_re_match (ip_allocation a) \<Longrightarrow>
     main a db = (Inl (SystemExit ''Your IP Allocation looks invalid (should be /18 - /28).''), db)"
  by (simp add: main_def)

text \<open>
  C9.  The size /29 lies outside 16 to 28, and outside the range /18 to /28 that the
  script's own message names, yet the check lets it pass: the run goes on to the table
  and allocates the /29 block it finds there.
\<close>

theorem size_29_accepted:
  "ip_re_match (ip_allocation args_29) \<and>
   main args_29 db_29 =
     (Inr ''10.0.0.0/29'',
      \<lparr>ip_allocations =
         [(''10.0.0.0/29'', [(''size'', ''/29''), (''availability'', ''in-use''),
                             (''region'', ''us-west-2''), (''account_id'', ''123456789012''),
                             (''config_options'', ''prod-us-west-2'')])],
       calls =
         [Scan ''/29'' ''available'' ''us-west-2'',
          UpdateItem ''10.0.0.0/29'' [(''availability'', ''in-use''),
                                      (''account_id'', ''123456789012''),
                                      (''config_options'', ''prod-us-west-2'')]]\<rparr>)"
  by (simp add: args_29_def db_29_def main_def allocate_automatic_def isdigit_def
      int_of_str_def strip_def isspace_def int_of_digits_def digit_val_def widen.simps Let_def
      table_eval)

section \<open>Correctness of the split\<close>

text \<open>
  C3.  For a block that the constructor accepts and a target prefix length that is
  greater than the block's and at most 32, \<open>cidr_slicing\<close> returns the compressed form
  of a list of networks, each of which parses back to itself, such that the union of
  their address ranges is the address range of the block, the ranges at any two different
  positions are disjoint, and the last network has the target prefix length.
\<close>

theorem split_correct:
  assumes "IPv4Network ip_block = Inr parent" "int (prefixlen parent) < netmask" "netmask \<le> 32"
  shows "\<exists>nets. cidr_slicing ip_block netmask = Inr (map compressed nets) \<and>
           map IPv4Network (map compressed nets) = map Inr nets \<and>
           \<Union> (range_of ` set nets) = range_of parent \<and>
           (\<forall>i<length nets. \<forall>j<length nets.
              i \<noteq> j \<longrightarrow> range_of (nets ! i) \<inter> range_of (nets ! j) = {}) \<and>
           nets \<noteq> [] \<and> int (prefixlen (last nets)) = netmask"
proof -
  from assms obtain k where k: "prefixlen parent + Suc k \<le> 32"
    "int (prefixlen parent + Suc k) = netmask"
    "cidr_slicing ip_block netmask = Inr (map compressed (buddy_chain parent (Suc k)))"
    by (rule slicing_steps)
  let ?nets = "buddy_chain parent (Suc k)"
  have v: "valid_network parent" using assms(1) by (rule IPv4Network_valid)
  have s: "sorted_wrt (\<lambda>x y. range_of x \<inter> range_of y = {}) ?nets"
    using k(1) by (rule disjoint_buddy_chain)
  have d: "range_of (?nets ! i) \<inter> range_of (?nets ! j) = {}"
    if "i < length ?nets" "j < length ?nets" "i \<noteq> j" for i j
  proof (cases "i < j")
    case True
    with s that show ?thesis by (simp only: sorted_wrt_iff_nth_less)
  next
    case False
    then have "j < i" using that(3) by simp
    with s that have "range_of (?nets ! j) \<inter> range_of (?nets ! i) = {}"
      by (simp only: sorted_wrt_iff_nth_less)
    then show ?thesis by blast
  qed
  have "cidr_slicing ip_block netmask = Inr (map compressed ?nets)" by (rule k(3))
  moreover have "map IPv4Network (map compressed ?nets) = map Inr ?nets"
    using v k(1) by (rule parse_buddy_chain)
  moreover have "\<Union> (range_of ` set ?nets) = range_of parent"
    using k(1) by (rule union_buddy_chain)
  moreover have "?nets \<noteq> []" by (rule buddy_chain_nonempty)
  moreover have "int (prefixlen (last ?nets)) = netmask"
    unfolding last_buddy_chain by (rule k(2))
  ultimately show ?thesis using d by blast
qed

theorem split_correct_witness:
  "IPv4Network ''10.0.0.0/20'' = Inr \<lparr>network_address = 167772160, prefixlen = 20\<rparr> \<and>
   int (prefixlen \<lparr>network_address = 167772160, prefixlen = 20\<rparr>) < 22 \<and> (22::int) \<le> 32 \<and>
   (\<exists>nets. cidr_slicing ''10.0.0.0/20'' 22 = Inr (map compressed nets) \<and>
           map IPv4Network (map compressed nets) = map Inr nets \<and>
           \<Union> (range_of ` set nets) = range_of \<lparr>network_address = 167772160, prefixlen = 20\<rparr> \<and>
           (\<forall>i<length nets. \<forall>j<length nets.
              i \<noteq> j \<longrightarrow> range_of (nets ! i) \<inter> range_of (nets ! j) = {}) \<and>
           nets \<noteq> [] \<and> int (prefixlen (last nets)) = 22)"
proof -
  have h: "int (prefixlen \<lparr>network_address = 167772160, prefixlen = 20\<rparr>) < 22" "(22::int) \<le> 32"
    by simp_all
  from split_correct [OF net_10_0_0_0_20 h] net_10_0_0_0_20 h show ?thesis by blast
qed

section \<open>Which element of the list is claimed\<close>

text \<open>
  C1 (amended).  For every free block whose prefix length is smaller than the requested
  one, \<open>cidr_slicing\<close> returns a list with one element for each halving step and one
  more.  The allocation claims the second-to-last element (\<open>network_list[-2]\<close>): after
  the run that element is in use and every other element of the list, the last one
  included, is available.  The last two elements both have the requested prefix length.
\<close>

theorem second_to_last_claimed:
  assumes "IPv4Network ip_block = Inr parent" "int (prefixlen parent) < netmask" "netmask \<le> 32"
  shows "\<exists>network_list. cidr_slicing ip_block netmask = Inr network_list \<and>
           length network_list = nat (netmask - int (prefixlen parent)) + 1 \<and>
           fst (slice_and_claim a co ip_block netmask db)
             = Inr (network_list ! (length network_list - 2)) \<and>
           (\<forall>i<length network_list.
              attr (network_list ! i) ''availability''
                (snd (slice_and_claim a co ip_block netmask db))
              = Some (if i = length network_list - 2 then ''in-use'' else ''available'')) \<and>
           (\<forall>i<length network_list. length network_list - 2 \<le> i \<longrightarrow>
              (\<exists>m. IPv4Network (network_list ! i) = Inr m \<and> int (prefixlen m) = netmask))"
proof -
  from assms obtain k where k: "nat (netmask - int (prefixlen parent)) = Suc k"
    "prefixlen parent + Suc k \<le> 32" "int (prefixlen parent + Suc k) = netmask"
    "cidr_slicing ip_block netmask = Inr (map compressed (buddy_chain parent (Suc k)))"
    by (rule slicing_steps)
  define nets where "nets = buddy_chain parent (Suc k)"
  define nl where "nl = map compressed nets"
  have v: "valid_network parent" using assms(1) by (rule IPv4Network_valid)
  have len: "length nl = Suc (Suc k)" by (simp add: nl_def nets_def length_buddy_chain)
  have dist: "distinct nl" unfolding nl_def nets_def using v k(2) by (rule distinct_compressed_chain)
  have notin: "ip_block \<notin> set nl"
    unfolding nl_def nets_def using assms(1) v k(2) by (rule chain_keys_differ_from_block)
  have run: "slice_and_claim a co ip_block netmask db =
      (Inr (nl ! k), delete_item ip_block (mark_in_use a co (nl ! k) (last3 (nl ! k))
          (add_slices (base_region a) nl db)))"
    unfolding nl_def nets_def using assms(1) k(2,4) by (rule slice_and_claim_chain)
  have av: "attr (nl ! i) ''availability'' (snd (slice_and_claim a co ip_block netmask db))
      = Some (if i = length nl - 2 then ''in-use'' else ''available'')" if "i < length nl" for i
  proof -
    have m: "nl ! i \<in> set nl" using that by simp
    then have "nl ! i \<noteq> ip_block" using notin by auto
    with m have "attr (nl ! i) ''availability'' (snd (slice_and_claim a co ip_block netmask db))
      = Some (if nl ! i = nl ! k then ''in-use'' else ''available'')"
      unfolding run snd_conv by (rule attr_after_slicing(1))
    moreover have "nl ! i = nl ! k \<longleftrightarrow> i = k"
      using dist that len by (simp add: nth_eq_iff_index_eq)
    ultimately show ?thesis by (simp add: len)
  qed
  have parse: "IPv4Network (nl ! i) = Inr (nets ! i)" if "i < length nl" for i
  proof -
    have "nets ! i \<in> set nets" using that by (simp add: nl_def)
    then have "valid_network (nets ! i)"
      using valid_buddy_chain[OF v k(2)] unfolding nets_def list_all_iff by blast
    then show ?thesis using that by (simp add: nl_def IPv4Network_compressed)
  qed
  have sz: "\<exists>m. IPv4Network (nl ! i) = Inr m \<and> int (prefixlen m) = netmask"
    if "i < length nl" "length nl - 2 \<le> i" for i
  proof -
    from that len have "i = k \<or> i = Suc k" by auto
    then have "prefixlen (nets ! i) = prefixlen parent + Suc k"
      unfolding nets_def using nth_buddy_chain_penultimate[of parent k]
        nth_buddy_chain_last[of parent "Suc k"] by auto
    with parse[OF that(1)] k(3) show ?thesis by auto
  qed
  have "cidr_slicing ip_block netmask = Inr nl" unfolding nl_def nets_def by (rule k(4))
  moreover have "length nl = nat (netmask - int (prefixlen parent)) + 1"
    unfolding len k(1) by simp
  moreover have "fst (slice_and_claim a co ip_block netmask db) = Inr (nl ! (length nl - 2))"
    unfolding run len by simp
  ultimately show ?thesis using av sz by blast
qed

theorem second_to_last_claimed_witness:
  "IPv4Network ''10.0.0.0/20'' = Inr \<lparr>network_address = 167772160, prefixlen = 20\<rparr> \<and>
   int (prefixlen \<lparr>network_address = 167772160, prefixlen = 20\<rparr>) < 22 \<and> (22::int) \<le> 32 \<and>
   (\<exists>network_list. cidr_slicing ''10.0.0.0/20'' 22 = Inr network_list \<and>
      fst (slice_and_claim scenario_args ''prod-us-west-2'' ''10.0.0.0/20'' 22 scenario_db)
        = Inr (network_list ! (length network_list - 2)))"
proof -
  have h: "int (prefixlen \<lparr>network_address = 167772160, prefixlen = 20\<rparr>) < 22" "(22::int) \<le> 32"
    by simp_all
  from second_to_last_claimed [OF net_10_0_0_0_20 h,
      of scenario_args "''prod-us-west-2''" scenario_db]
    net_10_0_0_0_20 h show ?thesis by blast
qed

text \<open>
  C1 as stated fails: in the scenario the last element of the list, 10.0.12.0/22, is not
  the one marked in-use.
\<close>

theorem last_element_not_claimed_counterexample:
  "cidr_slicing ''10.0.0.0/20'' 22 = Inr [''10.0.0.0/21'', ''10.0.8.0/22'', ''10.0.12.0/22''] \<and>
   attr (last [''10.0.0.0/21'', ''10.0.8.0/22'', ''10.0.12.0/22'']) ''availability''
     (snd (main scenario_args scenario_db)) \<noteq> Some ''in-use''"
  by (simp add: slicing_10_0_0_0_20 scenario_eval attr_def get_item_def)

section \<open>The stored size\<close>

text \<open>
  C6 (amended).  Every record that the slicing branch writes under a key whose prefix
  length has two digits (10 to 32), by the sibling inserts and by the update of the
  claimed block alike, has as its stored size the slash followed by the prefix length of
  its own key: this holds in the table after the inserts and in the table at the end of
  the branch.  The manual override stores the size argument of the request as the size,
  so the stored size is the slash followed by the prefix length of the manual CIDR exactly
  when the size argument is that text.
\<close>

theorem stored_sizes:
  "(IPv4Network ip_block = Inr parent \<and> int (prefixlen parent) < netmask \<and> netmask \<le> 32 \<longrightarrow>
      (\<exists>network_list. cidr_slicing ip_block netmask = Inr network_list \<and>
         list_all (\<lambda>network. \<exists>m. IPv4Network network = Inr m \<and>
                      (10 \<le> prefixlen m \<longrightarrow>
                         attr network ''size'' (add_slices (base_region a) network_list db)
                           = Some (CHR ''/'' # str_nat (prefixlen m)) \<and>
                         attr network ''size'' (snd (slice_and_claim a co ip_block netmask db))
                           = Some (CHR ''/'' # str_nat (prefixlen m))))
                  network_list)) \<and>
   (ip_re_match (ip_allocation a) \<and> manual_cidr a \<noteq> ''no'' \<and> config_options_of a = Inr co \<longrightarrow>
      attr (manual_cidr a) ''size'' (snd (main a db)) = Some (ip_allocation a) \<and>
      (attr (manual_cidr a) ''size'' (snd (main a db)) = Some (CHR ''/'' # str_nat p)
         \<longleftrightarrow> ip_allocation a = CHR ''/'' # str_nat p))"
proof (intro conjI impI)
  assume "IPv4Network ip_block = Inr parent \<and> int (prefixlen parent) < netmask \<and> netmask \<le> 32"
  then have h: "IPv4Network ip_block = Inr parent" "int (prefixlen parent) < netmask"
    "netmask \<le> 32" by simp_all
  show "\<exists>network_list. cidr_slicing ip_block netmask = Inr network_list \<and>
         list_all (\<lambda>network. \<exists>m. IPv4Network network = Inr m \<and>
                      (10 \<le> prefixlen m \<longrightarrow>
                         attr network ''size'' (add_slices (base_region a) network_list db)
                           = Some (CHR ''/'' # str_nat (prefixlen m)) \<and>
                         attr network ''size'' (snd (slice_and_claim a co ip_block netmask db))
                           = Some (CHR ''/'' # str_nat (prefixlen m))))
                  network_list"
    using h by (rule sizes_after_slicing)
next
  assume m: "ip_re_match (ip_allocation a) \<and> manual_cidr a \<noteq> ''no'' \<and> config_options_of a = Inr co"
  then show s: "attr (manual_cidr a) ''size'' (snd (main a db)) = Some (ip_allocation a)"
    by (simp add: main_def allocate_manual_def attr_mark_in_use)
  show "attr (manual_cidr a) ''size'' (snd (main a db)) = Some (CHR ''/'' # str_nat p)
         \<longleftrightarrow> ip_allocation a = CHR ''/'' # str_nat p"
    unfolding s by simp
qed

theorem stored_sizes_witness:
  "IPv4Network ''10.0.0.0/8'' = Inr \<lparr>network_address = 167772160, prefixlen = 8\<rparr> \<and>
   int (prefixlen \<lparr>network_address = 167772160, prefixlen = 8\<rparr>) < 10 \<and> (10::int) \<le> 32 \<and>
   ip_re_match (ip_allocation mismatch_args) \<and> manual_cidr mismatch_args \<noteq> ''no'' \<and>
   config_options_of mismatch_args = Inr ''prod-us-west-2'' \<and>
   (\<exists>network_list. cidr_slicing ''10.0.0.0/8'' 10 = Inr network_list \<and>
      list_all (\<lambda>network. \<exists>m. IPv4Network network = Inr m \<and>
                   (10 \<le> prefixlen m \<longrightarrow>
                      attr network ''size''
                        (add_slices (base_region mismatch_args) network_list db_8)
                        = Some (CHR ''/'' # str_nat (prefixlen m)) \<and>
                      attr network ''size''
                        (snd (slice_and_claim mismatch_args ''prod-us-west-2'' ''10.0.0.0/8'' 10
                                db_8))
                        = Some (CHR ''/'' # str_nat (prefixlen m))))
               network_list) \<and>
   attr (manual_cidr mismatch_args) ''size'' (snd (main mismatch_args db_8))
     = Some (ip_allocation mismatch_args)"
proof -
  have h1: "IPv4Network ''10.0.0.0/8'' = Inr \<lparr>network_address = 167772160, prefixlen = 8\<rparr> \<and>
    int (prefixlen \<lparr>network_address = 167772160, prefixlen = 8\<rparr>) < 10 \<and> (10::int) \<le> 32"
    using net_10_0_0_0_8 by simp
  have h2: "ip_re_match (ip_allocation mismatch_args) \<and> manual_cidr mismatch_args \<noteq> ''no'' \<and>
    config_options_of mismatch_args = Inr ''prod-us-west-2''"
    by (simp add: mismatch_args_def isdigit_def config_options_of_def config_map_def)
  from stored_sizes [of "''10.0.0.0/8''" "\<lparr>network_address = 167772160, prefixlen = 8\<rparr>" 10
      mismatch_args db_8 "''prod-us-west-2''"] h1 h2
  show ?thesis by blast
qed

text \<open>
  C6 as stated fails twice.  The manual override with the key 10.1.0.0/24, of prefix length
  24, and the size argument /22 stores the size /22.  And when the block 10.0.0.0/8 is cut
  for a /10, the sibling 10.0.0.0/9 is written with the size 0/9, the last three characters
  of its key, by the insert and still at the end of the branch.
\<close>

theorem stored_size_counterexample:
  "IPv4Network ''10.1.0.0/24'' = Inr \<lparr>network_address = 167837696, prefixlen = 24\<rparr> \<and>
   attr ''10.1.0.0/24'' ''size'' (snd (main mismatch_args scenario_db))
     \<noteq> Some (CHR ''/'' # str_nat (prefixlen \<lparr>network_address = 167837696, prefixlen = 24\<rparr>)) \<and>
   cidr_slicing ''10.0.0.0/8'' 10 = Inr [''10.0.0.0/9'', ''10.128.0.0/10'', ''10.192.0.0/10''] \<and>
   IPv4Network ''10.0.0.0/9'' = Inr \<lparr>network_address = 167772160, prefixlen = 9\<rparr> \<and>
   attr ''10.0.0.0/9'' ''size''
     (add_slices (base_region args_10) [''10.0.0.0/9'', ''10.128.0.0/10'', ''10.192.0.0/10''] db_8)
     \<noteq> Some (CHR ''/'' # str_nat (prefixlen \<lparr>network_address = 167772160, prefixlen = 9\<rparr>)) \<and>
   attr ''10.0.0.0/9'' ''size''
     (snd (slice_and_claim args_10 ''prod-us-west-2'' ''10.0.0.0/8'' 10 db_8))
     \<noteq> Some (CHR ''/'' # str_nat (prefixlen \<lparr>network_address = 167772160, prefixlen = 9\<rparr>))"
  by (simp add: net_10_1_0_0_24 mismatch_eval slicing_10_0_0_0_8 net_10_0_0_0_9 slice_8_sizes
      str_eval)

section \<open>Disjointness over sequences of allocations\<close>

text \<open>
  C5.  Start from a table whose records are networks no two of which overlap, and run any
  number of automatic allocations that succeed, one after another.  Then the table is
  again such a pool after every run, the blocks returned so far are pairwise different
  and all recorded as in use, and no two of them overlap.
\<close>

theorem allocations_disjoint:
  assumes "disjoint_pool db0" "runs db0 db claimed"
  shows "disjoint_pool db \<and> distinct claimed \<and>
         list_all (\<lambda>k. attr k ''availability'' db = Some ''in-use'') claimed \<and>
         no_overlap claimed"
proof -
  from runs_invariant[OF assms(2,1)]
  have inv: "disjoint_pool db" "distinct claimed"
    "list_all (\<lambda>k. attr k ''availability'' db = Some ''in-use'') claimed"
    by simp_all
  have "set claimed \<subseteq> set (keys db)"
    using inv(3) by (auto simp: list_all_iff dest: attr_Some_key)
  moreover have "no_overlap (keys db)" using inv(1) by (simp add: disjoint_pool_def)
  ultimately have "no_overlap claimed" by (rule no_overlap_subset[rotated])
  with inv show ?thesis by simp
qed

theorem allocations_disjoint_witness:
  "disjoint_pool scenario_db \<and>
   runs scenario_db scenario_db2 [''10.0.8.0/22'', ''10.0.12.0/22''] \<and>
   disjoint_pool scenario_db2 \<and>
   distinct [''10.0.8.0/22'', ''10.0.12.0/22''] \<and>
   list_all (\<lambda>k. attr k ''availability'' scenario_db2 = Some ''in-use'')
     [''10.0.8.0/22'', ''10.0.12.0/22''] \<and>
   no_overlap [''10.0.8.0/22'', ''10.0.12.0/22'']"
proof -
  have a: "manual_cidr scenario_args = ''no''" by (simp add: scenario_args_def)
  have 1: "main scenario_args scenario_db = (Inr ''10.0.8.0/22'', scenario_db1)"
    unfolding scenario_db1_def by (simp add: scenario_eval)
  have 2: "main scenario_args scenario_db1 = (Inr ''10.0.12.0/22'', scenario_db2)"
    unfolding scenario_db2_def using scenario_second_eval by (simp add: prod_eq_iff)
  have r: "runs scenario_db scenario_db2 [''10.0.8.0/22'', ''10.0.12.0/22'']"
    using runs_alloc[OF runs_alloc[OF runs_start a 1] a 2] by simp
  from allocations_disjoint [OF scenario_pool r] scenario_pool r show ?thesis by simp
qed

end
